theory Spec2Isabelle
  imports Main
begin

section \<open>Values of the embedding interpreter\<close>

text \<open>
  The group is a Starlark extension.  The interpreter itself is a library outside the
  repository; the part of it the group relies on is small: values, a deep freeze, and
  the fact that a frozen list refuses mutation.  Mutable lists and groups live in a
  store and are named by their address, so that the caller, a registered call and the
  arguments of a call can share one.  A builtin may be bound to a receiver
  (\<^verbatim>\<open>BindReceiver\<close>, as the methods \<^verbatim>\<open>go\<close> and \<^verbatim>\<open>wait\<close> of a group are), and a Starlark function
  carries the values it closes over.
\<close>

datatype val =
    VNone
  | VInt int
  | VStr string
  | VBuiltin string
  | VBound string val
  | VFunction string "val list"
  | VTuple "val list"
  | VList nat
  | VGroup nat

record lobj =
  l_elems :: "val list"
  l_frozen :: bool

datatype error =
    MissingFunctionArg
  | ExpectedCallable
  | GroupFrozen
  | WaitFrozen
  | ContextCanceled
  | DeadlineExceeded
  | LimiterBurst
  | LimiterDeadline
  | ParseDurationError
  | AppendFrozenList
  | CallError string

text \<open>The type assertion \<^verbatim>\<open>args[0].(starlark.Callable)\<close>: functions and builtins.\<close>

fun is_Callable :: "val \<Rightarrow> bool" where
  "is_Callable (VBuiltin f) = True"
| "is_Callable (VBound f r) = True"
| "is_Callable (VFunction f cl) = True"
| "is_Callable v = False"

section \<open>The group\<close>

text \<open>
  \<^verbatim>\<open>rate.Limit\<close>: \<^verbatim>\<open>rate.Inf\<close>, or one event every \<open>d\<close> nanoseconds, \<open>d\<close> positive.
  \<^verbatim>\<open>rate.Every\<close> is the library's: an interval that is not positive gives \<^verbatim>\<open>rate.Inf\<close>.
  The limiter is a library object; what is kept of it is its two parameters and the
  number of tokens it has granted.
\<close>

datatype limit = Inf | Every int

definition rate_Every :: "int \<Rightarrow> limit" where
  "rate_Every d = (if d \<le> 0 then Inf else Every d)"

record limiter =
  lim_limit :: limit
  lim_burst :: int
  lim_granted :: nat

text \<open>
  \<^verbatim>\<open>errgroup.Group\<close>: the first error a function passed to \<^verbatim>\<open>Go\<close> returned, and the number of
  functions passed to \<^verbatim>\<open>Go\<close> so far.
\<close>

record errgroup =
  eg_err :: "error option"
  eg_spawned :: nat

record callable =
  c_fn :: val
  c_args :: "val list"
  c_kwargs :: "val list list"

text \<open>
  The struct \<^verbatim>\<open>Group\<close>.  A context is represented by what \<^verbatim>\<open>ctx.Err()\<close> returns:
  \<open>None\<close> while it is live, the reason once it is done.
\<close>

record group =
  g_ctx :: "error option"
  g_group :: errgroup
  g_limiter :: limiter
  g_frozen :: bool
  g_n :: int
  g_calls :: "callable list"

record store =
  st_lists :: "lobj list"
  st_groups :: "group list"

text \<open>The method \<^verbatim>\<open>Freeze\<close> of a group sets the flag and nothing else; \<^verbatim>\<open>Truth\<close> reads it.\<close>

definition Group_Freeze :: "group \<Rightarrow> group" where
  "Group_Freeze g = g\<lparr>g_frozen := True\<rparr>"

definition Group_Truth :: "group \<Rightarrow> bool" where
  "Group_Truth g = (\<not> g_frozen g)"

definition unfrozen_count :: "lobj list \<Rightarrow> nat" where
  "unfrozen_count h = length (filter (\<lambda>ob. \<not> l_frozen ob) h)"

text \<open>
  Modelled from the spec: the deep-freeze capability of a value (section 9), which the
  interpreter library implements for its own values.  \<^verbatim>\<open>Tuple.Freeze\<close> freezes every
  element; a list that is not yet frozen is marked and then its elements are frozen, so
  a cyclic list ends; a bound builtin freezes its receiver, a function the values it
  closes over; a group is frozen by its own method above.  The first argument is the
  work still to do.
\<close>

function Tuple_Freeze :: "val list \<Rightarrow> store \<Rightarrow> store" where
  "Tuple_Freeze [] st = st"
| "Tuple_Freeze (VNone # vs) st = Tuple_Freeze vs st"
| "Tuple_Freeze (VInt k # vs) st = Tuple_Freeze vs st"
| "Tuple_Freeze (VStr s # vs) st = Tuple_Freeze vs st"
| "Tuple_Freeze (VBuiltin f # vs) st = Tuple_Freeze vs st"
| "Tuple_Freeze (VBound f r # vs) st = Tuple_Freeze (r # vs) st"
| "Tuple_Freeze (VFunction f cl # vs) st = Tuple_Freeze (cl @ vs) st"
| "Tuple_Freeze (VTuple ts # vs) st = Tuple_Freeze (ts @ vs) st"
| "Tuple_Freeze (VList a # vs) st =
     (if a < length (st_lists st) \<and> \<not> l_frozen (st_lists st ! a)
      then Tuple_Freeze (l_elems (st_lists st ! a) @ vs)
             (st\<lparr>st_lists := (st_lists st)[a := (st_lists st ! a)\<lparr>l_frozen := True\<rparr>]\<rparr>)
      else Tuple_Freeze vs st)"
| "Tuple_Freeze (VGroup a # vs) st =
     Tuple_Freeze vs
       (if a < length (st_groups st)
        then st\<lparr>st_groups := (st_groups st)[a := Group_Freeze (st_groups st ! a)]\<rparr>
        else st)"
  by pat_completeness auto

lemma unfrozen_count_mark:
  "a < length h \<Longrightarrow> \<not> l_frozen (h ! a) \<Longrightarrow>
   unfrozen_count (h[a := (h ! a)\<lparr>l_frozen := True\<rparr>]) < unfrozen_count h"
proof (induction h arbitrary: a)
  case Nil
  then show ?case by simp
next
  case (Cons x xs)
  show ?case
  proof (cases a)
    case 0
    with Cons.prems show ?thesis by (simp add: unfrozen_count_def)
  next
    case (Suc b)
    with Cons.prems have "unfrozen_count (xs[b := (xs ! b)\<lparr>l_frozen := True\<rparr>]) < unfrozen_count xs"
      by (intro Cons.IH) simp_all
    with Suc show ?thesis by (simp add: unfrozen_count_def)
  qed
qed

termination Tuple_Freeze
  by (relation "measures [\<lambda>(vs, st). unfrozen_count (st_lists st), \<lambda>(vs, st). size_list size vs]")
     (simp_all add: unfrozen_count_mark)

text \<open>
  Modelled from the spec: a mutation attempted on a frozen value fails and changes
  nothing (section 9); on a list that is not frozen, \<^verbatim>\<open>append\<close> adds the element.
\<close>

definition list_append :: "nat \<Rightarrow> val \<Rightarrow> store \<Rightarrow> error + store" where
  "list_append a v st =
     (if l_frozen (st_lists st ! a) then Inl AppendFrozenList
      else Inr (st\<lparr>st_lists :=
             (st_lists st)[a := (st_lists st ! a)\<lparr>l_elems := l_elems (st_lists st ! a) @ [v]\<rparr>]\<rparr>))"

text \<open>
  \<^verbatim>\<open>NewGroup(ctx, n, r, b)\<close>.  The struct literal sets \<^verbatim>\<open>ctx\<close>, \<^verbatim>\<open>group\<close> and \<^verbatim>\<open>limiter\<close>
  only: \<^verbatim>\<open>frozen\<close>, \<^verbatim>\<open>n\<close> and \<^verbatim>\<open>calls\<close> keep the zero values of their types, whatever
  the parameter \<open>n\<close> is.
\<close>

definition NewGroup :: "error option \<Rightarrow> int \<Rightarrow> limit \<Rightarrow> int \<Rightarrow> group" where
  "NewGroup ctx n r b =
     \<lparr>g_ctx = ctx,
      g_group = \<lparr>eg_err = None, eg_spawned = 0\<rparr>,
      g_limiter = \<lparr>lim_limit = r, lim_burst = b, lim_granted = 0\<rparr>,
      g_frozen = False,
      g_n = 0,
      g_calls = []\<rparr>"

text \<open>
  \<^verbatim>\<open>Make\<close>, after \<^verbatim>\<open>UnpackArgs\<close> has bound the three optional keyword arguments (their
  defaults are \<open>0\<close>, the empty string and \<open>0\<close>).  \<^verbatim>\<open>time.ParseDuration\<close> is a library
  function and a parameter here; \<open>local\<close> is the thread's \<^verbatim>\<open>"context"\<close> local, absent
  when the host did not set one (then the background context, never done, is used).
  The new group is put in the store and the value returned is its address.
\<close>

definition Make ::
  "(string \<Rightarrow> error + int) \<Rightarrow> error option option \<Rightarrow> int \<Rightarrow> string \<Rightarrow> int \<Rightarrow> store
     \<Rightarrow> (error + val) \<times> store" where
  "Make ParseDuration local n every burst st =
     (let ctx = (case local of None \<Rightarrow> None | Some c \<Rightarrow> c) in
      if every \<noteq> ''''
      then (case ParseDuration every of
              Inl e \<Rightarrow> (Inl e, st)
            | Inr d \<Rightarrow>
                (Inr (VGroup (length (st_groups st))),
                 st\<lparr>st_groups := st_groups st @ [NewGroup ctx n (rate_Every d) burst]\<rparr>))
      else (Inr (VGroup (length (st_groups st))),
            st\<lparr>st_groups := st_groups st @ [NewGroup ctx n Inf burst]\<rparr>))"

text \<open>
  \<^verbatim>\<open>group_go\<close> on the group at address \<open>r\<close> (the receiver of the bound method).  The
  result is the returned value or error, and the store.  \<^verbatim>\<open>args.Freeze()\<close> reaches every
  value of the tuple, the function included, and the receiver too when it is among them.
  The slice \<^verbatim>\<open>kwargs\<close> is replaced by a new slice of the same length before the loop
  that freezes its elements, so that loop ranges over empty tuples.
\<close>

definition group_go ::
  "store \<Rightarrow> nat \<Rightarrow> val list \<Rightarrow> val list list \<Rightarrow> (error + val) \<times> store" where
  "group_go st r args kwargs =
     (if length args = 0 then (Inl MissingFunctionArg, st)
      else if \<not> is_Callable (args ! 0) then (Inl ExpectedCallable, st)
      else if g_frozen (st_groups st ! r) then (Inl GroupFrozen, st)
      else
        let st1 = Tuple_Freeze args st;
            kwargs' = replicate (length kwargs) [];
            st2 = fold Tuple_Freeze kwargs' st1;
            g = st_groups st2 ! r
        in if g_ctx g \<noteq> None then (Inr VNone, st2)
           else (Inr VNone,
                 st2\<lparr>st_groups := (st_groups st2)[r := g\<lparr>g_calls := g_calls g @
                    [\<lparr>c_fn = args ! 0, c_args = tl args, c_kwargs = kwargs'\<rparr>]\<rparr>]\<rparr>))"

section \<open>Collaborators of \<^verbatim>\<open>wait\<close>\<close>

text \<open>
  \<^verbatim>\<open>starlark.Call(thread, fn, args, kwargs)\<close> is the interpreter's; it is a parameter of
  the model, a function from the callable and its arguments to a value or an error.  So
  what a call returns does not depend on when it runs, and the body of a call has no
  effect on the group.
\<close>

type_synonym callsem = "val \<Rightarrow> val list \<Rightarrow> val list list \<Rightarrow> error + val"

definition starlark_Call :: "callsem \<Rightarrow> callable \<Rightarrow> error + val" where
  "starlark_Call cs c = cs (c_fn c) (c_args c) (c_kwargs c)"

text \<open>
  Modelled from the spec: \<^verbatim>\<open>RateLimiter.wait(ctx)\<close> (section 4.1) fails with the context's
  error when the context is done, and otherwise grants a token.  The library's limiter
  first refuses a request larger than its burst unless the rate is infinite, so a finite
  rate with a burst below one never grants.  How long the caller is blocked is not part
  of the model.
\<close>

definition Limiter_Wait :: "error option \<Rightarrow> limiter \<Rightarrow> error option \<times> limiter" where
  "Limiter_Wait ctx lim =
     (if lim_limit lim \<noteq> Inf \<and> lim_burst lim < 1 then (Some LimiterBurst, lim)
      else (case ctx of
              Some e \<Rightarrow> (Some e, lim)
            | None \<Rightarrow> (None, lim\<lparr>lim_granted := Suc (lim_granted lim)\<rparr>)))"

text \<open>
  Modelled from the spec: the join group (section 4.2).  \<^verbatim>\<open>Go\<close> starts a function; when a
  started function returns an error and none was recorded before, the error is recorded
  and the group's context is cancelled; \<^verbatim>\<open>Wait\<close> returns the recorded error once every
  started function has returned, and cancels the context.
\<close>

definition cancel :: "error option \<Rightarrow> error option" where
  "cancel ctx = (case ctx of None \<Rightarrow> Some ContextCanceled | Some e \<Rightarrow> Some e)"

definition errgroup_Go :: "group \<Rightarrow> group" where
  "errgroup_Go g = g\<lparr>g_group := (g_group g)\<lparr>eg_spawned := Suc (eg_spawned (g_group g))\<rparr>\<rparr>"

definition errgroup_return :: "error option \<Rightarrow> group \<Rightarrow> group" where
  "errgroup_return r g =
     (case r of
        None \<Rightarrow> g
      | Some e \<Rightarrow>
          (if eg_err (g_group g) = None
           then g\<lparr>g_group := (g_group g)\<lparr>eg_err := Some e\<rparr>, g_ctx := cancel (g_ctx g)\<rparr>
           else g))"

section \<open>\<^verbatim>\<open>group_wait\<close> as a transition system\<close>

text \<open>
  \<^verbatim>\<open>group_wait\<close> runs its loop on the calling thread while the functions it has passed to
  \<^verbatim>\<open>errgroup.Go\<close> run beside it.  A state holds the group, the locals of \<^verbatim>\<open>group_wait\<close>
  (\<^verbatim>\<open>i\<close>, \<^verbatim>\<open>elems\<close>, \<^verbatim>\<open>queue\<close>), where the calling thread stands, and the started functions
  that have not returned: \<open>w_tasks\<close> are the closures \<^verbatim>\<open>call\<close> started directly (by index),
  \<open>w_workers\<close> counts the loops over the queue.  Two logs record which indices passed
  the limiter and which closures were invoked, in the order it happened.  The body of a
  closure is one step.
\<close>

datatype pc =
    PLoop
  | PSelect
  | PJoin
  | PRet "error + val option list"

record wait_state =
  w_g :: group
  w_pc :: pc
  w_i :: nat
  w_elems :: "val option list"
  w_queue :: "nat list option"
  w_closed :: bool
  w_tasks :: "nat list"
  w_workers :: nat
  w_admitted :: "nat list"
  w_invoked :: "nat list"

text \<open>Entry of \<^verbatim>\<open>group_wait\<close>: the frozen check, \<^verbatim>\<open>g.Freeze()\<close>, and the allocation of \<^verbatim>\<open>elems\<close>.\<close>

definition group_wait_enter :: "group \<Rightarrow> error + wait_state" where
  "group_wait_enter g =
     (if g_frozen g then Inl WaitFrozen
      else Inr \<lparr>w_g = Group_Freeze g, w_pc = PLoop, w_i = 0,
                w_elems = replicate (length (g_calls g)) None,
                w_queue = None, w_closed = False, w_tasks = [], w_workers = 0,
                w_admitted = [], w_invoked = []\<rparr>)"

text \<open>
  The closure \<^verbatim>\<open>call\<close> of index \<open>k\<close>: it calls the function and, on success, stores the
  value in \<^verbatim>\<open>elems[k]\<close>.
\<close>

definition run_call :: "callsem \<Rightarrow> nat \<Rightarrow> wait_state \<Rightarrow> error option \<times> wait_state" where
  "run_call cs k s =
     (case starlark_Call cs (g_calls (w_g s) ! k) of
        Inl e \<Rightarrow> (Some e, s\<lparr>w_invoked := w_invoked s @ [k]\<rparr>)
      | Inr v \<Rightarrow> (None, s\<lparr>w_elems := (w_elems s)[k := Some v], w_invoked := w_invoked s @ [k]\<rparr>))"

text \<open>
  One pass of the calling thread from the head of the loop: to the \<^verbatim>\<open>select\<close> (cap
  positive), to the next iteration (\<^verbatim>\<open>continue\<close>), out of \<^verbatim>\<open>group_wait\<close> when the limiter
  fails, or, after the last call, past the \<^verbatim>\<open>close\<close> to \<^verbatim>\<open>g.group.Wait()\<close>.
\<close>

definition loop_head :: "wait_state \<Rightarrow> wait_state" where
  "loop_head s =
     (let g = w_g s; i = w_i s in
      if i < length (g_calls g) then
        (case Limiter_Wait (g_ctx g) (g_limiter g) of
           (Some e, lim) \<Rightarrow> s\<lparr>w_pc := PRet (Inl e)\<rparr>
         | (None, lim) \<Rightarrow>
             let g1 = g\<lparr>g_limiter := lim\<rparr>;
                 s1 = s\<lparr>w_g := g1, w_admitted := w_admitted s @ [i]\<rparr>
             in if g_n g \<le> 0
                then s1\<lparr>w_g := errgroup_Go g1, w_tasks := w_tasks s @ [i], w_i := Suc i\<rparr>
                else
                  let s2 = (if i = 0 then s1\<lparr>w_queue := Some []\<rparr> else s1);
                      s3 = (if int i < g_n g
                            then s2\<lparr>w_g := errgroup_Go g1, w_workers := Suc (w_workers s)\<rparr>
                            else s2)
                  in s3\<lparr>w_pc := PSelect\<rparr>)
      else s\<lparr>w_closed := (w_queue s \<noteq> None), w_pc := PJoin\<rparr>)"

datatype action =
    Dispatch
  | Refuse error
  | SendQueue
  | SendAbort
  | Join
  | RunTask nat
  | WorkerPull
  | WorkerExit
  | CancelCtx error

text \<open>
  The steps.  \<open>None\<close> means that the action cannot happen in the state: a send on a full
  queue, a receive on an empty one, \<^verbatim>\<open>Wait\<close> while a started function has not returned.
  \<open>SendQueue\<close> and \<open>SendAbort\<close> are the two cases of the \<^verbatim>\<open>select\<close>; \<open>WorkerPull\<close> is one
  iteration of a worker's \<^verbatim>\<open>range queue\<close>, \<open>WorkerExit\<close> its end on a closed, drained
  queue; \<open>CancelCtx\<close> is the context the group was bound to being cancelled by the host
  or passing its deadline, with the reason; \<open>Refuse\<close> is the limiter returning an error of
  its own at the head of the loop although the context is live (the library's limiter
  does when the wait for a token would pass the deadline of the context).
\<close>

fun wait_step :: "callsem \<Rightarrow> action \<Rightarrow> wait_state \<Rightarrow> wait_state option" where
  "wait_step cs Dispatch s = (if w_pc s = PLoop then Some (loop_head s) else None)"
| "wait_step cs (Refuse e) s =
     (if w_pc s = PLoop \<and> w_i s < length (g_calls (w_g s))
      then Some (s\<lparr>w_pc := PRet (Inl e)\<rparr>)
      else None)"
| "wait_step cs SendQueue s =
     (case w_queue s of
        None \<Rightarrow> None
      | Some q \<Rightarrow>
          if w_pc s = PSelect \<and> int (length q) < g_n (w_g s)
          then Some (s\<lparr>w_queue := Some (q @ [w_i s]), w_i := Suc (w_i s), w_pc := PLoop\<rparr>)
          else None)"
| "wait_step cs SendAbort s =
     (case g_ctx (w_g s) of
        None \<Rightarrow> None
      | Some e \<Rightarrow> if w_pc s = PSelect then Some (s\<lparr>w_pc := PRet (Inl e)\<rparr>) else None)"
| "wait_step cs Join s =
     (if w_pc s = PJoin \<and> w_tasks s = [] \<and> w_workers s = 0
      then Some (s\<lparr>w_g := (w_g s)\<lparr>g_ctx := cancel (g_ctx (w_g s))\<rparr>,
                   w_pc := (case eg_err (g_group (w_g s)) of
                              Some e \<Rightarrow> PRet (Inl e)
                            | None \<Rightarrow> PRet (Inr (w_elems s)))\<rparr>)
      else None)"
| "wait_step cs (RunTask k) s =
     (if k \<in> set (w_tasks s)
      then (case run_call cs k s of
              (r, s') \<Rightarrow> Some (s'\<lparr>w_g := errgroup_return r (w_g s'),
                                  w_tasks := removeAll k (w_tasks s')\<rparr>))
      else None)"
| "wait_step cs WorkerPull s =
     (case w_queue s of
        Some (k # q) \<Rightarrow>
          if 0 < w_workers s
          then (case run_call cs k (s\<lparr>w_queue := Some q\<rparr>) of
                  (None, s') \<Rightarrow> Some s'
                | (Some e, s') \<Rightarrow>
                    Some (s'\<lparr>w_g := errgroup_return (Some e) (w_g s'),
                             w_workers := w_workers s' - 1\<rparr>))
          else None
      | _ \<Rightarrow> None)"
| "wait_step cs WorkerExit s =
     (if 0 < w_workers s \<and> w_queue s = Some [] \<and> w_closed s
      then Some (s\<lparr>w_workers := w_workers s - 1\<rparr>)
      else None)"
| "wait_step cs (CancelCtx e) s =
     (if g_ctx (w_g s) = None
      then Some (s\<lparr>w_g := (w_g s)\<lparr>g_ctx := Some e\<rparr>\<rparr>)
      else None)"

fun wait_run :: "callsem \<Rightarrow> action list \<Rightarrow> wait_state \<Rightarrow> wait_state option" where
  "wait_run cs [] s = Some s"
| "wait_run cs (a # as) s =
     (case wait_step cs a s of None \<Rightarrow> None | Some s' \<Rightarrow> wait_run cs as s')"


text \<open>
  \<^verbatim>\<open>group_wait\<close> under a schedule: the entry, then the actions in turn.  The outer result
  is \<open>None\<close> when the schedule asks for an action that cannot happen.
\<close>

definition group_wait :: "callsem \<Rightarrow> action list \<Rightarrow> group \<Rightarrow> (error + wait_state) option" where
  "group_wait cs acts g =
     (case group_wait_enter g of
        Inl e \<Rightarrow> Some (Inl e)
      | Inr s \<Rightarrow> map_option Inr (wait_run cs acts s))"


section \<open>What holds in every state of \<^verbatim>\<open>group_wait\<close>\<close>

text \<open>
  The first error of a list of results, the result of the registered call of index \<open>k\<close>,
  and the content a slot of \<^verbatim>\<open>elems\<close> must have once the closures \<open>done\<close> have run.
\<close>

fun first_error :: "(error + val) list \<Rightarrow> error option" where
  "first_error [] = None"
| "first_error (Inl e # rs) = Some e"
| "first_error (Inr v # rs) = first_error rs"

definition call_result :: "callsem \<Rightarrow> group \<Rightarrow> nat \<Rightarrow> error + val" where
  "call_result cs g k = starlark_Call cs (g_calls g ! k)"

definition slot :: "callsem \<Rightarrow> group \<Rightarrow> nat list \<Rightarrow> nat \<Rightarrow> val option" where
  "slot cs g done k =
     (if k \<in> set done then (case call_result cs g k of Inr v \<Rightarrow> Some v | Inl e \<Rightarrow> None) else None)"

definition in_order :: "nat list \<Rightarrow> bool" where
  "in_order ks \<longleftrightarrow> ks = [0..<length ks]"

text \<open>
  The invariant, in five parts, relative to the group \<open>g0\<close> on which \<^verbatim>\<open>wait\<close> was called:
  what never changes; where the loop stands and what it has admitted and started; the
  started functions and the queue; the slots and the recorded error; the returned value.
\<close>

definition inv_static :: "group \<Rightarrow> wait_state \<Rightarrow> bool" where
  "inv_static g0 s \<longleftrightarrow>
     g_calls (w_g s) = g_calls g0 \<and> g_n (w_g s) = g_n g0 \<and> g_frozen (w_g s) \<and>
     length (w_elems s) = length (g_calls g0)"

definition inv_loop :: "group \<Rightarrow> wait_state \<Rightarrow> bool" where
  "inv_loop g0 s \<longleftrightarrow>
     w_i s \<le> length (g_calls g0) \<and>
     in_order (w_admitted s) \<and>
     w_i s \<le> length (w_admitted s) \<and> length (w_admitted s) \<le> Suc (w_i s) \<and>
     length (w_admitted s) \<le> length (g_calls g0) \<and>
     (w_pc s = PLoop \<longrightarrow> length (w_admitted s) = w_i s) \<and>
     (w_pc s = PJoin \<longrightarrow> length (w_admitted s) = w_i s \<and> w_i s = length (g_calls g0)
         \<and> w_closed s = (w_queue s \<noteq> None)) \<and>
     (w_pc s = PSelect \<longrightarrow> length (w_admitted s) = Suc (w_i s) \<and> w_i s < length (g_calls g0)
         \<and> 0 < g_n g0) \<and>
     (w_closed s \<longrightarrow> w_pc s \<noteq> PLoop \<and> w_pc s \<noteq> PSelect \<and> w_queue s \<noteq> None) \<and>
     eg_spawned (g_group (w_g s)) = eg_spawned (g_group g0) +
        (if g_n g0 \<le> 0 then length (w_admitted s) else min (nat (g_n g0)) (length (w_admitted s))) \<and>
     lim_granted (g_limiter (w_g s)) = lim_granted (g_limiter g0) + length (w_admitted s)"

definition inv_pool :: "group \<Rightarrow> wait_state \<Rightarrow> bool" where
  "inv_pool g0 s \<longleftrightarrow>
     (g_n g0 \<le> 0 \<longrightarrow>
        w_queue s = None \<and> w_workers s = 0 \<and> distinct (w_tasks s @ w_invoked s) \<and>
        set (w_tasks s) \<union> set (w_invoked s) = {..<w_i s} \<and> length (w_admitted s) = w_i s) \<and>
     (0 < g_n g0 \<longrightarrow>
        w_tasks s = [] \<and>
        (w_queue s = None \<longrightarrow> w_invoked s = [] \<and> w_admitted s = [] \<and> w_workers s = 0) \<and>
        (\<forall>q. w_queue s = Some q \<longrightarrow>
           w_invoked s @ q = [0..<w_i s] \<and> w_admitted s \<noteq> [] \<and>
           (eg_err (g_group (w_g s)) = None \<longrightarrow>
              (w_closed s \<longrightarrow> q \<noteq> [] \<longrightarrow> 0 < w_workers s) \<and>
              (\<not> w_closed s \<longrightarrow> w_workers s = min (nat (g_n g0)) (length (w_admitted s))))))"

definition inv_results :: "callsem \<Rightarrow> group \<Rightarrow> wait_state \<Rightarrow> bool" where
  "inv_results cs g0 s \<longleftrightarrow>
     w_elems s = map (slot cs g0 (w_invoked s)) [0..<length (g_calls g0)] \<and>
     eg_err (g_group (w_g s)) = first_error (map (call_result cs g0) (w_invoked s)) \<and>
     (eg_err (g_group (w_g s)) \<noteq> None \<longrightarrow> g_ctx (w_g s) \<noteq> None)"

definition inv_ret :: "wait_state \<Rightarrow> bool" where
  "inv_ret s \<longleftrightarrow>
     (\<forall>xs. w_pc s = PRet (Inr xs) \<longrightarrow>
        xs = w_elems s \<and> eg_err (g_group (w_g s)) = None \<and> w_tasks s = [] \<and>
        w_workers s = 0 \<and> w_i s = length (g_calls (w_g s)) \<and> w_closed s = (w_queue s \<noteq> None))"

definition winv :: "callsem \<Rightarrow> group \<Rightarrow> wait_state \<Rightarrow> bool" where
  "winv cs g0 s \<longleftrightarrow> inv_static g0 s \<and> inv_loop g0 s \<and> inv_pool g0 s \<and> inv_results cs g0 s \<and> inv_ret s"



section \<open>Notions used to state the properties\<close>

text \<open>A limiter that can grant a token at all: rate infinite, or a burst of at least one.\<close>

definition can_grant :: "limiter \<Rightarrow> bool" where
  "can_grant lim \<longleftrightarrow> lim_limit lim = Inf \<or> 1 \<le> lim_burst lim"




text \<open>
  The mutable objects a value refers to without passing through a list, the objects a
  list holds, and the objects that can be reached from the values \<open>vs\<close> in a store.
\<close>

datatype ref = RList nat | RGroup nat

fun refs_of :: "val \<Rightarrow> ref list" where
  "refs_of (VList a) = [RList a]"
| "refs_of (VGroup a) = [RGroup a]"
| "refs_of (VTuple ts) = concat (map refs_of ts)"
| "refs_of (VBound f r) = refs_of r"
| "refs_of (VFunction f cl) = concat (map refs_of cl)"
| "refs_of VNone = []"
| "refs_of (VInt k) = []"
| "refs_of (VStr s) = []"
| "refs_of (VBuiltin f) = []"

fun allocated :: "store \<Rightarrow> ref \<Rightarrow> bool" where
  "allocated st (RList a) = (a < length (st_lists st))"
| "allocated st (RGroup a) = (a < length (st_groups st))"

fun is_frozen :: "store \<Rightarrow> ref \<Rightarrow> bool" where
  "is_frozen st (RList a) = l_frozen (st_lists st ! a)"
| "is_frozen st (RGroup a) = g_frozen (st_groups st ! a)"

fun children :: "store \<Rightarrow> ref \<Rightarrow> ref list" where
  "children st (RList a) = concat (map refs_of (l_elems (st_lists st ! a)))"
| "children st (RGroup a) = []"

inductive reaches :: "store \<Rightarrow> val list \<Rightarrow> ref \<Rightarrow> bool" for st vs where
  root: "r \<in> set (concat (map refs_of vs)) \<Longrightarrow> reaches st vs r"
| step: "reaches st vs r \<Longrightarrow> allocated st r \<Longrightarrow> r' \<in> set (children st r) \<Longrightarrow> reaches st vs r'"

text \<open>
  A store as the interpreter keeps it: a frozen list holds frozen objects only, since
  the freeze is deep and a frozen list cannot be changed.
\<close>

definition well_frozen :: "store \<Rightarrow> bool" where
  "well_frozen st \<longleftrightarrow>
     (\<forall>a<length (st_lists st). l_frozen (st_lists st ! a) \<longrightarrow>
        (\<forall>r\<in>set (children st (RList a)). allocated st r \<longrightarrow> is_frozen st r))"

text \<open>
  The same while a freeze is under way: an object held by a frozen list is frozen or is
  among the objects \<open>W\<close> that the freeze still has to visit.
\<close>

definition frozen_up_to :: "store \<Rightarrow> ref set \<Rightarrow> bool" where
  "frozen_up_to st W \<longleftrightarrow>
     (\<forall>a<length (st_lists st). l_frozen (st_lists st ! a) \<longrightarrow>
        (\<forall>r\<in>set (children st (RList a)). allocated st r \<longrightarrow> is_frozen st r \<or> r \<in> W))"

text \<open>
  A fragment of the library's \<^verbatim>\<open>time.ParseDuration\<close>, enough to run \<^verbatim>\<open>Make\<close> on examples: an
  optional sign, decimal digits and one unit, or the string \<^verbatim>\<open>0\<close>; the value is in
  nanoseconds.  The library accepts more (fractions, several components); those strings
  are errors here.
\<close>

definition unit_ns :: "string \<Rightarrow> int option" where
  "unit_ns u =
     (if u = ''ns'' then Some 1
      else if u = ''us'' then Some 1000
      else if u = ''ms'' then Some 1000000
      else if u = ''s'' then Some 1000000000
      else if u = ''m'' then Some 60000000000
      else if u = ''h'' then Some 3600000000000
      else None)"

definition is_digit :: "char \<Rightarrow> bool" where
  "is_digit c \<longleftrightarrow> c \<in> set ''0123456789''"

definition digits_val :: "string \<Rightarrow> int" where
  "digits_val ds = foldl (\<lambda>acc c. 10 * acc + (int (of_char c) - 48)) 0 ds"

definition ParseDuration :: "string \<Rightarrow> error + int" where
  "ParseDuration s =
     (let neg = (take 1 s = ''-'');
          r = (if take 1 s = ''-'' \<or> take 1 s = ''+'' then drop 1 s else s);
          ds = takeWhile is_digit r;
          u = dropWhile is_digit r
      in if r = ''0'' then Inr 0
         else if ds = [] then Inl ParseDurationError
         else (case unit_ns u of
                 None \<Rightarrow> Inl ParseDurationError
               | Some k \<Rightarrow> Inr ((if neg then - 1 else 1) * digits_val ds * k)))"






section \<open>The invariant is kept by every step\<close>

lemma in_order_Nil [simp]: "in_order []"
  by (simp add: in_order_def)

lemma in_order_snoc: "in_order ks \<Longrightarrow> length ks = k \<Longrightarrow> in_order (ks @ [k])"
  by (simp add: in_order_def)

lemma first_error_snoc:
  "first_error (rs @ [r]) =
     (case first_error rs of Some e \<Rightarrow> Some e | None \<Rightarrow> (case r of Inl e \<Rightarrow> Some e | Inr v \<Rightarrow> None))"
  by (induction rs rule: first_error.induct) (auto split: sum.splits)

lemma winv_enter:
  assumes "group_wait_enter g0 = Inr s" "eg_err (g_group g0) = None"
  shows "winv cs g0 s"
  using assms
  by (auto simp: group_wait_enter_def winv_def inv_static_def inv_loop_def inv_pool_def inv_results_def
      inv_ret_def Group_Freeze_def slot_def split: if_splits intro!: nth_equalityI)


subsection \<open>Fields after a step\<close>

lemma errgroup_Go_fields [simp]:
  "g_ctx (errgroup_Go g) = g_ctx g"
  "g_limiter (errgroup_Go g) = g_limiter g"
  "g_frozen (errgroup_Go g) = g_frozen g"
  "g_n (errgroup_Go g) = g_n g"
  "g_calls (errgroup_Go g) = g_calls g"
  "eg_err (g_group (errgroup_Go g)) = eg_err (g_group g)"
  "eg_spawned (g_group (errgroup_Go g)) = Suc (eg_spawned (g_group g))"
  by (simp_all add: errgroup_Go_def)

lemma errgroup_return_fields [simp]:
  "g_limiter (errgroup_return r g) = g_limiter g"
  "g_frozen (errgroup_return r g) = g_frozen g"
  "g_n (errgroup_return r g) = g_n g"
  "g_calls (errgroup_return r g) = g_calls g"
  "eg_spawned (g_group (errgroup_return r g)) = eg_spawned (g_group g)"
  "eg_err (g_group (errgroup_return r g)) = (case eg_err (g_group g) of Some e \<Rightarrow> Some e | None \<Rightarrow> r)"
  "g_ctx (errgroup_return r g) =
     (if r \<noteq> None \<and> eg_err (g_group g) = None then cancel (g_ctx g) else g_ctx g)"
  by (auto simp: errgroup_return_def split: option.splits)

lemma cancel_not_None [simp]: "cancel c \<noteq> None"
  by (simp add: cancel_def split: option.splits)

lemma cancel_Some [simp]: "cancel (Some e) = Some e"
  by (simp add: cancel_def)

lemma run_call_fields [simp]:
  "w_g (snd (run_call cs k s)) = w_g s"
  "w_pc (snd (run_call cs k s)) = w_pc s"
  "w_i (snd (run_call cs k s)) = w_i s"
  "w_queue (snd (run_call cs k s)) = w_queue s"
  "w_closed (snd (run_call cs k s)) = w_closed s"
  "w_tasks (snd (run_call cs k s)) = w_tasks s"
  "w_workers (snd (run_call cs k s)) = w_workers s"
  "w_admitted (snd (run_call cs k s)) = w_admitted s"
  "w_invoked (snd (run_call cs k s)) = w_invoked s @ [k]"
  "length (w_elems (snd (run_call cs k s))) = length (w_elems s)"
  "fst (run_call cs k s) =
     (case starlark_Call cs (g_calls (w_g s) ! k) of Inl e \<Rightarrow> Some e | Inr v \<Rightarrow> None)"
  by (simp_all add: run_call_def split: sum.splits)

lemma run_call_elems:
  "w_elems (snd (run_call cs k s)) =
     (case starlark_Call cs (g_calls (w_g s) ! k) of
        Inl e \<Rightarrow> w_elems s | Inr v \<Rightarrow> (w_elems s)[k := Some v])"
  by (simp add: run_call_def split: sum.splits)

lemma loop_head_end:
  "\<not> w_i s < length (g_calls (w_g s)) \<Longrightarrow>
   loop_head s = s\<lparr>w_closed := (w_queue s \<noteq> None), w_pc := PJoin\<rparr>"
  by (simp add: loop_head_def)

lemma loop_head_refused:
  "w_i s < length (g_calls (w_g s)) \<Longrightarrow>
   fst (Limiter_Wait (g_ctx (w_g s)) (g_limiter (w_g s))) = Some e \<Longrightarrow>
   loop_head s = s\<lparr>w_pc := PRet (Inl e)\<rparr>"
  by (auto simp: loop_head_def Let_def split: prod.splits option.splits)

lemma Limiter_Wait_cases:
  "fst (Limiter_Wait ctx lim) =
     (if \<not> can_grant lim then Some LimiterBurst else ctx)"
  "fst (Limiter_Wait ctx lim) = None \<Longrightarrow>
     Limiter_Wait ctx lim = (None, lim\<lparr>lim_granted := Suc (lim_granted lim)\<rparr>)"
  by (auto simp: Limiter_Wait_def can_grant_def split: option.splits if_splits)

lemma loop_head_go:
  "w_i s < length (g_calls (w_g s)) \<Longrightarrow>
   fst (Limiter_Wait (g_ctx (w_g s)) (g_limiter (w_g s))) = None \<Longrightarrow> g_n (w_g s) \<le> 0 \<Longrightarrow>
   loop_head s =
     s\<lparr>w_g := errgroup_Go ((w_g s)\<lparr>g_limiter :=
               (g_limiter (w_g s))\<lparr>lim_granted := Suc (lim_granted (g_limiter (w_g s)))\<rparr>\<rparr>),
       w_admitted := w_admitted s @ [w_i s],
       w_tasks := w_tasks s @ [w_i s],
       w_i := Suc (w_i s)\<rparr>"
  by (simp add: loop_head_def Limiter_Wait_cases(2) Let_def)

lemma loop_head_pool:
  "w_i s < length (g_calls (w_g s)) \<Longrightarrow>
   fst (Limiter_Wait (g_ctx (w_g s)) (g_limiter (w_g s))) = None \<Longrightarrow> 0 < g_n (w_g s) \<Longrightarrow>
   loop_head s =
     s\<lparr>w_g := (if int (w_i s) < g_n (w_g s)
               then errgroup_Go ((w_g s)\<lparr>g_limiter :=
                 (g_limiter (w_g s))\<lparr>lim_granted := Suc (lim_granted (g_limiter (w_g s)))\<rparr>\<rparr>)
               else (w_g s)\<lparr>g_limiter :=
                 (g_limiter (w_g s))\<lparr>lim_granted := Suc (lim_granted (g_limiter (w_g s)))\<rparr>\<rparr>),
       w_admitted := w_admitted s @ [w_i s],
       w_queue := (if w_i s = 0 then Some [] else w_queue s),
       w_workers := (if int (w_i s) < g_n (w_g s) then Suc (w_workers s) else w_workers s),
       w_pc := PSelect\<rparr>"
  by (simp add: loop_head_def Limiter_Wait_cases(2) Let_def)

lemma wait_step_RunTask:
  "wait_step cs (RunTask k) s =
     (if k \<in> set (w_tasks s)
      then Some ((snd (run_call cs k s))\<lparr>w_g := errgroup_return (fst (run_call cs k s)) (w_g s),
                                          w_tasks := removeAll k (w_tasks s)\<rparr>)
      else None)"
  by (simp add: case_prod_beta)

lemma wait_step_WorkerPull:
  "wait_step cs WorkerPull s =
     (case w_queue s of
        Some (k # q) \<Rightarrow>
          if 0 < w_workers s
          then Some ((snd (run_call cs k s))\<lparr>
                 w_queue := Some q,
                 w_g := errgroup_return (fst (run_call cs k s)) (w_g s),
                 w_workers := (if fst (run_call cs k s) = None then w_workers s else w_workers s - 1)\<rparr>)
          else None
      | _ \<Rightarrow> None)"
  by (auto simp: run_call_def errgroup_return_def split: option.splits list.splits sum.splits)


lemma winv_SendQueue:
  assumes "winv cs g0 s" and "wait_step cs SendQueue s = Some s'"
  shows "winv cs g0 s'"
proof -
  from assms(2) obtain q where q: "w_queue s = Some q" "w_pc s = PSelect" "int (length q) < g_n (w_g s)"
    and s': "s' = s\<lparr>w_queue := Some (q @ [w_i s]), w_i := Suc (w_i s), w_pc := PLoop\<rparr>"
    by (auto split: option.splits if_splits)
  from assms(1) have st: "inv_static g0 s" and lp: "inv_loop g0 s" and pl: "inv_pool g0 s"
    and rs: "inv_results cs g0 s" and rt: "inv_ret s"
    by (simp_all add: winv_def)
  have "inv_static g0 s'" using st by (simp add: inv_static_def s')
  moreover have "inv_loop g0 s'" using lp q by (auto simp: inv_loop_def s')
  moreover have "inv_pool g0 s'" using pl lp q st by (auto simp: inv_pool_def inv_loop_def inv_static_def s')
  moreover have "inv_results cs g0 s'" using rs by (simp add: inv_results_def s')
  moreover have "inv_ret s'" by (simp add: inv_ret_def s')
  ultimately show ?thesis by (simp add: winv_def)
qed

lemma winv_SendAbort:
  assumes "winv cs g0 s" and "wait_step cs SendAbort s = Some s'"
  shows "winv cs g0 s'"
proof -
  from assms(2) obtain e where q: "g_ctx (w_g s) = Some e" "w_pc s = PSelect"
    and s': "s' = s\<lparr>w_pc := PRet (Inl e)\<rparr>"
    by (auto split: option.splits if_splits)
  from assms(1) have st: "inv_static g0 s" and lp: "inv_loop g0 s" and pl: "inv_pool g0 s"
    and rs: "inv_results cs g0 s" and rt: "inv_ret s"
    by (simp_all add: winv_def)
  have "inv_static g0 s'" using st by (simp add: inv_static_def s')
  moreover have "inv_loop g0 s'" using lp q by (auto simp: inv_loop_def s')
  moreover have "inv_pool g0 s'" using pl by (simp add: inv_pool_def s')
  moreover have "inv_results cs g0 s'" using rs by (simp add: inv_results_def s')
  moreover have "inv_ret s'" using q by (simp add: inv_ret_def s')
  ultimately show ?thesis by (simp add: winv_def)
qed

lemma winv_Join:
  assumes "winv cs g0 s" and "wait_step cs Join s = Some s'"
  shows "winv cs g0 s'"
proof -
  from assms(2) have q: "w_pc s = PJoin" "w_tasks s = []" "w_workers s = 0"
    and s': "s' = s\<lparr>w_g := (w_g s)\<lparr>g_ctx := cancel (g_ctx (w_g s))\<rparr>,
                   w_pc := (case eg_err (g_group (w_g s)) of
                              Some e \<Rightarrow> PRet (Inl e)
                            | None \<Rightarrow> PRet (Inr (w_elems s)))\<rparr>"
    by (auto split: option.splits if_splits)
  from assms(1) have st: "inv_static g0 s" and lp: "inv_loop g0 s" and pl: "inv_pool g0 s"
    and rs: "inv_results cs g0 s" and rt: "inv_ret s"
    by (simp_all add: winv_def)
  have "inv_static g0 s'" using st by (simp add: inv_static_def s')
  moreover have "inv_loop g0 s'" using lp q by (auto simp: inv_loop_def s' split: option.splits)
  moreover have "inv_pool g0 s'" using pl by (simp add: inv_pool_def s')
  moreover have "inv_results cs g0 s'" using rs by (simp add: inv_results_def s')
  moreover have "inv_ret s'" using q lp st by (auto simp: inv_ret_def inv_loop_def inv_static_def s' split: option.splits)
  ultimately show ?thesis by (simp add: winv_def)
qed

lemma winv_WorkerExit:
  assumes "winv cs g0 s" and "wait_step cs WorkerExit s = Some s'"
  shows "winv cs g0 s'"
proof -
  from assms(2) have q: "0 < w_workers s" "w_queue s = Some []" "w_closed s"
    and s': "s' = s\<lparr>w_workers := w_workers s - 1\<rparr>"
    by (auto split: option.splits if_splits)
  from assms(1) have st: "inv_static g0 s" and lp: "inv_loop g0 s" and pl: "inv_pool g0 s"
    and rs: "inv_results cs g0 s" and rt: "inv_ret s"
    by (simp_all add: winv_def)
  have "inv_static g0 s'" using st by (simp add: inv_static_def s')
  moreover have "inv_loop g0 s'" using lp by (simp add: inv_loop_def s')
  moreover have "inv_pool g0 s'" using pl q by (auto simp: inv_pool_def s')
  moreover have "inv_results cs g0 s'" using rs by (simp add: inv_results_def s')
  moreover have "inv_ret s'" using rt q by (auto simp: inv_ret_def s')
  ultimately show ?thesis by (simp add: winv_def)
qed

lemma winv_CancelCtx:
  assumes "winv cs g0 s" and "wait_step cs (CancelCtx e) s = Some s'"
  shows "winv cs g0 s'"
proof -
  from assms(2) have q: "g_ctx (w_g s) = None"
    and s': "s' = s\<lparr>w_g := (w_g s)\<lparr>g_ctx := Some e\<rparr>\<rparr>"
    by (auto split: option.splits if_splits)
  from assms(1) have st: "inv_static g0 s" and lp: "inv_loop g0 s" and pl: "inv_pool g0 s"
    and rs: "inv_results cs g0 s" and rt: "inv_ret s"
    by (simp_all add: winv_def)
  have "inv_static g0 s'" using st by (simp add: inv_static_def s')
  moreover have "inv_loop g0 s'" using lp by (simp add: inv_loop_def s')
  moreover have "inv_pool g0 s'" using pl by (simp add: inv_pool_def s')
  moreover have "inv_results cs g0 s'" using rs by (simp add: inv_results_def s')
  moreover have "inv_ret s'" using rt q by (auto simp: inv_ret_def s')
  ultimately show ?thesis by (simp add: winv_def)
qed

lemma queue_nonempty_pos: "xs @ q = [0..<i] \<Longrightarrow> q \<noteq> [] \<Longrightarrow> 0 < i"
  by (cases i) auto

lemma winv_Dispatch:
  assumes "winv cs g0 s" and "wait_step cs Dispatch s = Some s'"
  shows "winv cs g0 s'"
proof -
  from assms(2) have pc: "w_pc s = PLoop" and s': "s' = loop_head s"
    by (auto split: if_splits)
  from assms(1) have st: "inv_static g0 s" and lp: "inv_loop g0 s" and pl: "inv_pool g0 s"
    and rs: "inv_results cs g0 s" and rt: "inv_ret s"
    by (simp_all add: winv_def)
  from st have g: "g_calls (w_g s) = g_calls g0" "g_n (w_g s) = g_n g0"
    by (simp_all add: inv_static_def)
  from lp pc have adm: "length (w_admitted s) = w_i s" "in_order (w_admitted s @ [w_i s])" "\<not> w_closed s"
    by (auto simp: inv_loop_def in_order_snoc)
  consider (past) "\<not> w_i s < length (g_calls g0)"
    | (refused) e where "w_i s < length (g_calls g0)"
        "fst (Limiter_Wait (g_ctx (w_g s)) (g_limiter (w_g s))) = Some e"
    | (direct) "w_i s < length (g_calls g0)"
        "fst (Limiter_Wait (g_ctx (w_g s)) (g_limiter (w_g s))) = None" "g_n g0 \<le> 0"
    | (pooled) "w_i s < length (g_calls g0)"
        "fst (Limiter_Wait (g_ctx (w_g s)) (g_limiter (w_g s))) = None" "0 < g_n g0"
    by (cases "fst (Limiter_Wait (g_ctx (w_g s)) (g_limiter (w_g s)))") force+
  then show ?thesis
  proof cases
    case past
    then have e: "s' = s\<lparr>w_closed := (w_queue s \<noteq> None), w_pc := PJoin\<rparr>"
      by (simp add: s' loop_head_end g)
    have "inv_static g0 s'" using st by (simp add: inv_static_def e)
    moreover have "inv_loop g0 s'" using lp pc past by (simp add: inv_loop_def e)
    moreover have "inv_pool g0 s'" using pl lp pc past adm
      by (auto simp: inv_pool_def e dest: queue_nonempty_pos)
    moreover have "inv_results cs g0 s'" using rs by (simp add: inv_results_def e)
    moreover have "inv_ret s'" by (simp add: inv_ret_def e)
    ultimately show ?thesis by (simp add: winv_def)
  next
    case refused
    then have e: "s' = s\<lparr>w_pc := PRet (Inl e)\<rparr>"
      by (simp add: s' loop_head_refused g)
    have "inv_static g0 s'" using st by (simp add: inv_static_def e)
    moreover have "inv_loop g0 s'" using lp pc by (simp add: inv_loop_def e)
    moreover have "inv_pool g0 s'" using pl by (simp add: inv_pool_def e)
    moreover have "inv_results cs g0 s'" using rs by (simp add: inv_results_def e)
    moreover have "inv_ret s'" by (simp add: inv_ret_def e)
    ultimately show ?thesis by (simp add: winv_def)
  next
    case direct
    then have e: "s' = s\<lparr>w_g := errgroup_Go ((w_g s)\<lparr>g_limiter :=
               (g_limiter (w_g s))\<lparr>lim_granted := Suc (lim_granted (g_limiter (w_g s)))\<rparr>\<rparr>),
       w_admitted := w_admitted s @ [w_i s],
       w_tasks := w_tasks s @ [w_i s],
       w_i := Suc (w_i s)\<rparr>"
      by (simp add: s' loop_head_go g)
    have "inv_static g0 s'" using st by (simp add: inv_static_def e)
    moreover have "inv_loop g0 s'" using lp pc direct adm by (simp add: inv_loop_def e)
    moreover have "inv_pool g0 s'"
    proof -
      from pl direct have p: "w_queue s = None" "w_workers s = 0" "distinct (w_tasks s @ w_invoked s)"
        "set (w_tasks s) \<union> set (w_invoked s) = {..<w_i s}"
        by (simp_all add: inv_pool_def)
      from p(4) have "w_i s \<notin> set (w_tasks s)" "w_i s \<notin> set (w_invoked s)" by auto
      with p(3) have "distinct ((w_tasks s @ [w_i s]) @ w_invoked s)" by simp
      moreover have "set (w_tasks s @ [w_i s]) \<union> set (w_invoked s) = {..<Suc (w_i s)}"
        by (simp add: lessThan_Suc p(4) [symmetric])
      ultimately show ?thesis using direct p adm by (simp add: inv_pool_def e)
    qed
    moreover have "inv_results cs g0 s'" using rs by (simp add: inv_results_def e)
    moreover have "inv_ret s'" using pc by (simp add: inv_ret_def e)
    ultimately show ?thesis by (simp add: winv_def)
  next
    case pooled
    then have e: "s' = s\<lparr>w_g := (if int (w_i s) < g_n g0
               then errgroup_Go ((w_g s)\<lparr>g_limiter :=
                 (g_limiter (w_g s))\<lparr>lim_granted := Suc (lim_granted (g_limiter (w_g s)))\<rparr>\<rparr>)
               else (w_g s)\<lparr>g_limiter :=
                 (g_limiter (w_g s))\<lparr>lim_granted := Suc (lim_granted (g_limiter (w_g s)))\<rparr>\<rparr>),
       w_admitted := w_admitted s @ [w_i s],
       w_queue := (if w_i s = 0 then Some [] else w_queue s),
       w_workers := (if int (w_i s) < g_n g0 then Suc (w_workers s) else w_workers s),
       w_pc := PSelect\<rparr>"
      using loop_head_pool [of s] by (simp add: s' g)
    have "inv_static g0 s'" using st by (simp add: inv_static_def e)
    moreover have "inv_loop g0 s'"
    proof (cases "int (w_i s) < g_n g0")
      case True
      then have "min (nat (g_n g0)) (Suc (w_i s)) = Suc (min (nat (g_n g0)) (w_i s))" by linarith
      with True lp pc pooled adm show ?thesis by (simp add: inv_loop_def e)
    next
      case False
      then have "min (nat (g_n g0)) (Suc (w_i s)) = min (nat (g_n g0)) (w_i s)" by linarith
      with False lp pc pooled adm show ?thesis by (simp add: inv_loop_def e)
    qed
    moreover have "inv_pool g0 s'"
    proof -
      from pl pooled have p: "w_tasks s = []"
        "w_queue s = None \<longrightarrow> w_invoked s = [] \<and> w_admitted s = [] \<and> w_workers s = 0"
        "\<forall>q. w_queue s = Some q \<longrightarrow>
           w_invoked s @ q = [0..<w_i s] \<and> w_admitted s \<noteq> [] \<and>
           (eg_err (g_group (w_g s)) = None \<longrightarrow>
              w_workers s = min (nat (g_n g0)) (length (w_admitted s)))"
        using adm by (simp_all add: inv_pool_def)
      have q0: "w_queue s = None \<Longrightarrow> w_i s = 0" using p(2) adm by auto
      have q1: "w_i s = 0 \<Longrightarrow> w_workers s = 0 \<and> w_invoked s = []"
        using p(2,3) adm pooled(3) by (cases "w_queue s") auto
      show ?thesis
      proof (cases "int (w_i s) < g_n g0")
        case True
        then have m: "min (nat (g_n g0)) (Suc (w_i s)) = Suc (min (nat (g_n g0)) (w_i s))" by linarith
        show ?thesis using True pooled p q0 q1 adm m
          by (auto simp: inv_pool_def e)
      next
        case False
        then have m: "min (nat (g_n g0)) (Suc (w_i s)) = min (nat (g_n g0)) (w_i s)" by linarith
        show ?thesis using False pooled p q0 q1 adm m
          by (auto simp: inv_pool_def e)
      qed
    qed
    moreover have "inv_results cs g0 s'" using rs by (simp add: inv_results_def e)
    moreover have "inv_ret s'" by (simp add: inv_ret_def e)
    ultimately show ?thesis by (simp add: winv_def)
  qed
qed



lemma slot_snoc:
  "slot cs g (ds @ [k]) j =
     (if j = k then (case call_result cs g k of Inr v \<Rightarrow> Some v | Inl e \<Rightarrow> None)
      else slot cs g ds j)"
  by (simp add: slot_def)

lemma elems_after_call:
  assumes "k < n" and "xs = map (slot cs g ds) [0..<n]"
  shows "(case call_result cs g k of Inl e \<Rightarrow> xs | Inr v \<Rightarrow> xs[k := Some v])
         = map (slot cs g (ds @ [k])) [0..<n]"
proof (rule nth_equalityI)
  show "length (case call_result cs g k of Inl e \<Rightarrow> xs | Inr v \<Rightarrow> xs[k := Some v])
        = length (map (slot cs g (ds @ [k])) [0..<n])"
    using assms by (simp split: sum.splits)
next
  fix j
  assume "j < length (case call_result cs g k of Inl e \<Rightarrow> xs | Inr v \<Rightarrow> xs[k := Some v])"
  then have j: "j < n" using assms by (simp split: sum.splits)
  show "(case call_result cs g k of Inl e \<Rightarrow> xs | Inr v \<Rightarrow> xs[k := Some v]) ! j
        = map (slot cs g (ds @ [k])) [0..<n] ! j"
  proof (cases "call_result cs g k")
    case (Inl e)
    with j assms show ?thesis by (simp add: slot_snoc) (simp add: slot_def)
  next
    case (Inr v)
    with j assms show ?thesis by (simp add: slot_snoc nth_list_update)
  qed
qed

lemma results_after_call:
  assumes rs: "inv_results cs g0 s" and st: "inv_static g0 s" and k: "k < length (g_calls g0)"
    and s': "w_g s' = errgroup_return (fst (run_call cs k s)) (w_g s)"
            "w_elems s' = w_elems (snd (run_call cs k s))"
            "w_invoked s' = w_invoked s @ [k]"
  shows "inv_results cs g0 s'"
proof -
  have c: "starlark_Call cs (g_calls (w_g s) ! k) = call_result cs g0 k"
    using st by (simp add: call_result_def inv_static_def)
  have "w_elems s' = map (slot cs g0 (w_invoked s')) [0..<length (g_calls g0)]"
    using elems_after_call [OF k, of "w_elems s" cs g0 "w_invoked s"] rs
    by (simp add: s' c inv_results_def run_call_elems)
  moreover have "eg_err (g_group (w_g s')) = first_error (map (call_result cs g0) (w_invoked s'))"
    using rs by (simp add: s' c inv_results_def first_error_snoc split: option.splits sum.splits)
  moreover have "eg_err (g_group (w_g s')) \<noteq> None \<longrightarrow> g_ctx (w_g s') \<noteq> None"
    using rs by (auto simp: s' c inv_results_def split: option.splits sum.splits)
  ultimately show ?thesis by (simp add: inv_results_def)
qed

lemma winv_RunTask:
  assumes "winv cs g0 s" and "wait_step cs (RunTask k) s = Some s'"
  shows "winv cs g0 s'"
proof -
  from assms(2) have q: "k \<in> set (w_tasks s)"
    and s': "s' = (snd (run_call cs k s))\<lparr>w_g := errgroup_return (fst (run_call cs k s)) (w_g s),
                                          w_tasks := removeAll k (w_tasks s)\<rparr>"
    by (auto simp: wait_step_RunTask simp del: wait_step.simps split: if_splits)
  from assms(1) have st: "inv_static g0 s" and lp: "inv_loop g0 s" and pl: "inv_pool g0 s"
    and rs: "inv_results cs g0 s" and rt: "inv_ret s"
    by (simp_all add: winv_def)
  from pl have "0 < g_n g0 \<longrightarrow> w_tasks s = []" by (simp add: inv_pool_def)
  with q have unc: "g_n g0 \<le> 0" by (cases "0 < g_n g0") auto
  with pl have p: "w_queue s = None" "w_workers s = 0" "distinct (w_tasks s @ w_invoked s)"
     "set (w_tasks s) \<union> set (w_invoked s) = {..<w_i s}" "length (w_admitted s) = w_i s"
    by (simp_all add: inv_pool_def)
  from q have "k \<in> set (w_tasks s) \<union> set (w_invoked s)" by simp
  then have "k \<in> {..<w_i s}" unfolding p(4) .
  then have "k < w_i s" by simp
  with lp have k: "k < length (g_calls g0)" by (simp add: inv_loop_def)
  have "inv_static g0 s'" using st by (simp add: inv_static_def s')
  moreover have "inv_loop g0 s'" using lp by (simp add: inv_loop_def s')
  moreover have "inv_pool g0 s'"
  proof -
    have d: "distinct (removeAll k (w_tasks s) @ w_invoked s @ [k])"
      using p(3) q by (auto simp: distinct_removeAll)
    have "set (removeAll k (w_tasks s)) \<union> set (w_invoked s @ [k])
                   = set (w_tasks s) \<union> set (w_invoked s)"
      using q by auto
    then have e: "set (removeAll k (w_tasks s)) \<union> set (w_invoked s @ [k]) = {..<w_i s}"
      unfolding p(4) .
    show ?thesis using unc p(1,2,5) d e by (simp add: inv_pool_def s')
  qed
  moreover have "inv_results cs g0 s'"
    by (rule results_after_call [OF rs st k]) (simp_all add: s')
  moreover have "inv_ret s'"
  proof -
    from rt q have "\<forall>xs. w_pc s \<noteq> PRet (Inr xs)" by (auto simp: inv_ret_def)
    then show ?thesis by (simp add: inv_ret_def s')
  qed
  ultimately show ?thesis by (simp add: winv_def)
qed

lemma winv_WorkerPull:
  assumes "winv cs g0 s" and "wait_step cs WorkerPull s = Some s'"
  shows "winv cs g0 s'"
proof -
  from assms(2) obtain k q where q: "w_queue s = Some (k # q)" "0 < w_workers s"
    and s': "s' = (snd (run_call cs k s))\<lparr>
                 w_queue := Some q,
                 w_g := errgroup_return (fst (run_call cs k s)) (w_g s),
                 w_workers := (if fst (run_call cs k s) = None then w_workers s else w_workers s - 1)\<rparr>"
    by (auto simp: wait_step_WorkerPull simp del: wait_step.simps split: option.splits list.splits if_splits)
  from assms(1) have st: "inv_static g0 s" and lp: "inv_loop g0 s" and pl: "inv_pool g0 s"
    and rs: "inv_results cs g0 s" and rt: "inv_ret s"
    by (simp_all add: winv_def)
  from pl have "g_n g0 \<le> 0 \<longrightarrow> w_queue s = None" by (simp add: inv_pool_def)
  with q have cap: "0 < g_n g0" by (cases "0 < g_n g0") auto
  with pl q have p: "w_tasks s = []" "w_invoked s @ k # q = [0..<w_i s]" "w_admitted s \<noteq> []"
     "eg_err (g_group (w_g s)) = None \<longrightarrow>
              (w_closed s \<longrightarrow> 0 < w_workers s) \<and>
              (\<not> w_closed s \<longrightarrow> w_workers s = min (nat (g_n g0)) (length (w_admitted s)))"
    by (simp_all add: inv_pool_def)
  have "k \<in> set (w_invoked s @ k # q)" by simp
  with p(2) have "k < w_i s" by simp
  with lp have k: "k < length (g_calls g0)" by (simp add: inv_loop_def)
  have "inv_static g0 s'" using st by (simp add: inv_static_def s')
  moreover have "inv_loop g0 s'" using lp q by (simp add: inv_loop_def s')
  moreover have "inv_pool g0 s'"
  proof (cases "fst (run_call cs k s)")
    case None
    with cap p q show ?thesis by (auto simp: inv_pool_def s' split: option.splits)
  next
    case (Some e)
    with cap p q show ?thesis by (auto simp: inv_pool_def s' split: option.splits)
  qed
  moreover have "inv_results cs g0 s'"
    by (rule results_after_call [OF rs st k]) (simp_all add: s')
  moreover have "inv_ret s'"
  proof -
    from rt q have "\<forall>xs. w_pc s \<noteq> PRet (Inr xs)" by (auto simp: inv_ret_def)
    then show ?thesis by (simp add: inv_ret_def s')
  qed
  ultimately show ?thesis by (simp add: winv_def)
qed


section \<open>Registration\<close>

lemma Group_Freeze_fields [simp]:
  "g_ctx (Group_Freeze g) = g_ctx g"
  "g_group (Group_Freeze g) = g_group g"
  "g_limiter (Group_Freeze g) = g_limiter g"
  "g_n (Group_Freeze g) = g_n g"
  "g_calls (Group_Freeze g) = g_calls g"
  "g_frozen (Group_Freeze g)"
  "Group_Freeze (Group_Freeze g) = Group_Freeze g"
  by (simp_all add: Group_Freeze_def)

lemma Group_Freeze_frozen: "g_frozen g \<Longrightarrow> Group_Freeze g = g"
  by (simp add: Group_Freeze_def)

lemma Tuple_Freeze_groups_length [simp]:
  "length (st_groups (Tuple_Freeze vs st)) = length (st_groups st)"
  by (induction vs st rule: Tuple_Freeze.induct) simp_all

lemma Tuple_Freeze_lists_length [simp]:
  "length (st_lists (Tuple_Freeze vs st)) = length (st_lists st)"
  by (induction vs st rule: Tuple_Freeze.induct) simp_all

lemma Tuple_Freeze_group:
  "a < length (st_groups st) \<Longrightarrow>
   st_groups (Tuple_Freeze vs st) ! a = st_groups st ! a \<or>
   st_groups (Tuple_Freeze vs st) ! a = Group_Freeze (st_groups st ! a)"
proof (induction vs st rule: Tuple_Freeze.induct)
  case (10 b vs st)
  show ?case
  proof (cases "b < length (st_groups st)")
    case True
    let ?st1 = "st\<lparr>st_groups := (st_groups st)[b := Group_Freeze (st_groups st ! b)]\<rparr>"
    from 10 True have
      "st_groups (Tuple_Freeze vs ?st1) ! a = st_groups ?st1 ! a \<or>
       st_groups (Tuple_Freeze vs ?st1) ! a = Group_Freeze (st_groups ?st1 ! a)"
      by simp
    with True "10.prems" show ?thesis
      by (cases "a = b") auto
  next
    case False
    with 10 show ?thesis by simp
  qed
qed simp_all

lemma Tuple_Freeze_Nil_funpow [simp]: "(Tuple_Freeze [] ^^ k) st = st"
  by (induction k) simp_all

lemma fold_Tuple_Freeze_empty: "fold Tuple_Freeze (replicate k []) st = st"
  by simp

lemma group_go_cancelled:
  assumes "\<not> g_frozen (st_groups st ! r)" "args \<noteq> []" "is_Callable (args ! 0)"
    and "g_ctx (st_groups st ! r) \<noteq> None" "r < length (st_groups st)"
  shows "group_go st r args kwargs = (Inr VNone, Tuple_Freeze args st)"
proof -
  from Tuple_Freeze_group [OF assms(5), of args]
  have "g_ctx (st_groups (Tuple_Freeze args st) ! r) = g_ctx (st_groups st ! r)"
    by auto
  with assms show ?thesis
    by (simp add: group_go_def Let_def fold_Tuple_Freeze_empty)
qed

lemma group_go_live:
  assumes "\<not> g_frozen (st_groups st ! r)" "args \<noteq> []" "is_Callable (args ! 0)"
    and "g_ctx (st_groups st ! r) = None" "r < length (st_groups st)"
  shows "group_go st r args kwargs =
     (Inr VNone,
      (Tuple_Freeze args st)\<lparr>st_groups := (st_groups (Tuple_Freeze args st))
         [r := (st_groups (Tuple_Freeze args st) ! r)\<lparr>g_calls :=
            g_calls (st_groups st ! r) @
            [\<lparr>c_fn = args ! 0, c_args = tl args, c_kwargs = replicate (length kwargs) []\<rparr>]\<rparr>]\<rparr>)"
proof -
  from Tuple_Freeze_group [OF assms(5), of args]
  have "g_ctx (st_groups (Tuple_Freeze args st) ! r) = g_ctx (st_groups st ! r)"
       "g_calls (st_groups (Tuple_Freeze args st) ! r) = g_calls (st_groups st ! r)"
    by auto
  with assms show ?thesis
    by (simp add: group_go_def Let_def fold_Tuple_Freeze_empty)
qed

lemma group_wait_frozen: "g_frozen g \<Longrightarrow> group_wait cs acts g = Some (Inl WaitFrozen)"
  by (simp add: group_wait_def group_wait_enter_def)


section \<open>The freeze is deep\<close>

lemma mark_list [simp]:
  assumes "a < length (st_lists st)"
  shows "allocated (st\<lparr>st_lists := (st_lists st)[a := (st_lists st ! a)\<lparr>l_frozen := True\<rparr>]\<rparr>) r
           = allocated st r"
    and "children (st\<lparr>st_lists := (st_lists st)[a := (st_lists st ! a)\<lparr>l_frozen := True\<rparr>]\<rparr>) r
           = children st r"
    and "is_frozen (st\<lparr>st_lists := (st_lists st)[a := (st_lists st ! a)\<lparr>l_frozen := True\<rparr>]\<rparr>) r
           = (r = RList a \<or> is_frozen st r)"
  using assms by (cases r; simp add: nth_list_update)+

lemma freeze_group [simp]:
  assumes "a < length (st_groups st)"
  shows "allocated (st\<lparr>st_groups := (st_groups st)[a := Group_Freeze (st_groups st ! a)]\<rparr>) r
           = allocated st r"
    and "children (st\<lparr>st_groups := (st_groups st)[a := Group_Freeze (st_groups st ! a)]\<rparr>) r
           = children st r"
    and "is_frozen (st\<lparr>st_groups := (st_groups st)[a := Group_Freeze (st_groups st ! a)]\<rparr>) r
           = (r = RGroup a \<or> is_frozen st r)"
  using assms by (cases r; simp add: nth_list_update)+

lemma Tuple_Freeze_allocated [simp]: "allocated (Tuple_Freeze vs st) r = allocated st r"
  by (cases r) simp_all

lemma Tuple_Freeze_elems:
  "a < length (st_lists st) \<Longrightarrow>
   l_elems (st_lists (Tuple_Freeze vs st) ! a) = l_elems (st_lists st ! a)"
  by (induction vs st rule: Tuple_Freeze.induct) (simp_all add: nth_list_update)

lemma Tuple_Freeze_children [simp]:
  "allocated st r \<Longrightarrow> children (Tuple_Freeze vs st) r = children st r"
  by (cases r) (simp_all add: Tuple_Freeze_elems)

lemma Tuple_Freeze_mono:
  "allocated st r \<Longrightarrow> is_frozen st r \<Longrightarrow> is_frozen (Tuple_Freeze vs st) r"
  by (induction vs st rule: Tuple_Freeze.induct) simp_all

lemma frozen_up_to_empty: "frozen_up_to st {} = well_frozen st"
  by (simp add: frozen_up_to_def well_frozen_def)

lemma frozen_up_to_mono: "frozen_up_to st V \<Longrightarrow> V \<subseteq> W \<Longrightarrow> frozen_up_to st W"
  unfolding frozen_up_to_def by blast

lemma frozen_up_to_mark:
  assumes p: "frozen_up_to st (set (concat (map refs_of (VList a # vs))))"
    and a: "a < length (st_lists st)"
  shows "frozen_up_to (st\<lparr>st_lists := (st_lists st)[a := (st_lists st ! a)\<lparr>l_frozen := True\<rparr>]\<rparr>)
           (set (concat (map refs_of (l_elems (st_lists st ! a) @ vs))))"
  unfolding frozen_up_to_def
proof (intro allI impI ballI)
  let ?st1 = "st\<lparr>st_lists := (st_lists st)[a := (st_lists st ! a)\<lparr>l_frozen := True\<rparr>]\<rparr>"
  fix b r
  assume b: "b < length (st_lists ?st1)" and fb: "l_frozen (st_lists ?st1 ! b)"
    and r: "r \<in> set (children ?st1 (RList b))" and ar: "allocated ?st1 r"
  from r a have r': "r \<in> set (children st (RList b))" by (simp only: mark_list)
  from ar a have ar': "allocated st r" by (simp only: mark_list)
  show "is_frozen ?st1 r \<or> r \<in> set (concat (map refs_of (l_elems (st_lists st ! a) @ vs)))"
  proof (cases "b = a")
    case True
    with r' show ?thesis by simp
  next
    case False
    with b fb a have "b < length (st_lists st)" "l_frozen (st_lists st ! b)" by simp_all
    with p r' ar' have "is_frozen st r \<or> r \<in> set (concat (map refs_of (VList a # vs)))"
      unfolding frozen_up_to_def by blast
    then show ?thesis using a by (auto simp only: mark_list) auto
  qed
qed

lemma frozen_up_to_skip:
  assumes p: "frozen_up_to st (set (concat (map refs_of (VList a # vs))))"
    and a: "\<not> (a < length (st_lists st) \<and> \<not> l_frozen (st_lists st ! a))"
  shows "frozen_up_to st (set (concat (map refs_of vs)))"
  unfolding frozen_up_to_def
proof (intro allI impI ballI)
  fix b r
  assume "b < length (st_lists st)" "l_frozen (st_lists st ! b)"
    "r \<in> set (children st (RList b))" and ar: "allocated st r"
  with p have "is_frozen st r \<or> r \<in> set (concat (map refs_of (VList a # vs)))"
    unfolding frozen_up_to_def by blast
  with a ar show "is_frozen st r \<or> r \<in> set (concat (map refs_of vs))" by auto
qed

lemma frozen_up_to_group:
  assumes p: "frozen_up_to st (set (concat (map refs_of (VGroup a # vs))))"
    and a: "a < length (st_groups st)"
  shows "frozen_up_to (st\<lparr>st_groups := (st_groups st)[a := Group_Freeze (st_groups st ! a)]\<rparr>)
           (set (concat (map refs_of vs)))"
  unfolding frozen_up_to_def
proof (intro allI impI ballI)
  let ?st1 = "st\<lparr>st_groups := (st_groups st)[a := Group_Freeze (st_groups st ! a)]\<rparr>"
  fix b r
  assume b: "b < length (st_lists ?st1)" and fb: "l_frozen (st_lists ?st1 ! b)"
    and r: "r \<in> set (children ?st1 (RList b))" and ar: "allocated ?st1 r"
  from r a have r': "r \<in> set (children st (RList b))" by (simp only: freeze_group)
  from ar a have ar': "allocated st r" by (simp only: freeze_group)
  from b fb have "b < length (st_lists st)" "l_frozen (st_lists st ! b)" by simp_all
  with p r' ar' have "is_frozen st r \<or> r \<in> set (concat (map refs_of (VGroup a # vs)))"
    unfolding frozen_up_to_def by blast
  then show "is_frozen ?st1 r \<or> r \<in> set (concat (map refs_of vs))"
    using a by (auto simp only: freeze_group) auto
qed

lemma frozen_up_to_group_skip:
  assumes p: "frozen_up_to st (set (concat (map refs_of (VGroup a # vs))))"
    and a: "\<not> a < length (st_groups st)"
  shows "frozen_up_to st (set (concat (map refs_of vs)))"
  unfolding frozen_up_to_def
proof (intro allI impI ballI)
  fix b r
  assume "b < length (st_lists st)" "l_frozen (st_lists st ! b)"
    "r \<in> set (children st (RList b))" and ar: "allocated st r"
  with p have "is_frozen st r \<or> r \<in> set (concat (map refs_of (VGroup a # vs)))"
    unfolding frozen_up_to_def by blast
  with a ar show "is_frozen st r \<or> r \<in> set (concat (map refs_of vs))" by auto
qed

lemma Tuple_Freeze_deep:
  "frozen_up_to st (set (concat (map refs_of vs))) \<Longrightarrow>
   well_frozen (Tuple_Freeze vs st) \<and>
   (\<forall>r\<in>set (concat (map refs_of vs)). allocated st r \<longrightarrow> is_frozen (Tuple_Freeze vs st) r)"
proof (induction vs st rule: Tuple_Freeze.induct)
  case (1 st)
  then show ?case by (simp add: frozen_up_to_empty)
next
  case (9 a vs st)
  show ?case
  proof (cases "a < length (st_lists st) \<and> \<not> l_frozen (st_lists st ! a)")
    case True
    let ?st1 = "st\<lparr>st_lists := (st_lists st)[a := (st_lists st ! a)\<lparr>l_frozen := True\<rparr>]\<rparr>"
    let ?vs1 = "l_elems (st_lists st ! a) @ vs"
    from True have a: "a < length (st_lists st)" by simp
    from frozen_up_to_mark [OF "9.prems" a]
    have "frozen_up_to ?st1 (set (concat (map refs_of ?vs1)))" .
    from "9.IH"(1) [OF True this]
    have w: "well_frozen (Tuple_Freeze ?vs1 ?st1)"
      and f: "\<forall>r\<in>set (concat (map refs_of ?vs1)). allocated ?st1 r \<longrightarrow> is_frozen (Tuple_Freeze ?vs1 ?st1) r"
      by blast+
    have e: "Tuple_Freeze (VList a # vs) st = Tuple_Freeze ?vs1 ?st1" using True by simp
    have "is_frozen ?st1 (RList a)" "allocated ?st1 (RList a)" using a by simp_all
    then have fa: "is_frozen (Tuple_Freeze ?vs1 ?st1) (RList a)" by (intro Tuple_Freeze_mono)
    have "is_frozen (Tuple_Freeze ?vs1 ?st1) r"
      if "r \<in> set (concat (map refs_of (VList a # vs)))" "allocated st r" for r
    proof (cases "r = RList a")
      case True
      with fa show ?thesis by simp
    next
      case False
      with that(1) have "r \<in> set (concat (map refs_of ?vs1))" by auto
      moreover from that(2) a have "allocated ?st1 r" by (simp only: mark_list)
      ultimately show ?thesis using f by blast
    qed
    with w show ?thesis unfolding e by blast
  next
    case False
    from frozen_up_to_skip [OF "9.prems" False]
    have "frozen_up_to st (set (concat (map refs_of vs)))" .
    from "9.IH"(2) [OF False this]
    have w: "well_frozen (Tuple_Freeze vs st)"
      and f: "\<forall>r\<in>set (concat (map refs_of vs)). allocated st r \<longrightarrow> is_frozen (Tuple_Freeze vs st) r"
      by blast+
    have e: "Tuple_Freeze (VList a # vs) st = Tuple_Freeze vs st" using False by auto
    have "is_frozen (Tuple_Freeze vs st) r"
      if "r \<in> set (concat (map refs_of (VList a # vs)))" "allocated st r" for r
    proof (cases "r = RList a")
      case True
      with that(2) False have "is_frozen st r" by simp
      with that(2) show ?thesis by (intro Tuple_Freeze_mono)
    next
      case False
      with that f show ?thesis by auto
    qed
    with w show ?thesis unfolding e by blast
  qed
next
  case (10 a vs st)
  show ?case
  proof (cases "a < length (st_groups st)")
    case True
    let ?st1 = "st\<lparr>st_groups := (st_groups st)[a := Group_Freeze (st_groups st ! a)]\<rparr>"
    from frozen_up_to_group [OF "10.prems" True]
    have p: "frozen_up_to ?st1 (set (concat (map refs_of vs)))" .
    have e: "Tuple_Freeze (VGroup a # vs) st = Tuple_Freeze vs ?st1" using True by simp
    from "10.IH" p True
    have w: "well_frozen (Tuple_Freeze vs ?st1)"
      and f: "\<forall>r\<in>set (concat (map refs_of vs)). allocated ?st1 r \<longrightarrow> is_frozen (Tuple_Freeze vs ?st1) r"
      by simp_all
    have "is_frozen ?st1 (RGroup a)" "allocated ?st1 (RGroup a)" using True by simp_all
    then have fa: "is_frozen (Tuple_Freeze vs ?st1) (RGroup a)" by (intro Tuple_Freeze_mono)
    have "is_frozen (Tuple_Freeze vs ?st1) r"
      if "r \<in> set (concat (map refs_of (VGroup a # vs)))" "allocated st r" for r
    proof (cases "r = RGroup a")
      case True
      with fa show ?thesis by simp
    next
      case False
      with that(1) have "r \<in> set (concat (map refs_of vs))" by auto
      moreover from that(2) True have "allocated ?st1 r" by (simp only: freeze_group)
      ultimately show ?thesis using f by blast
    qed
    with w show ?thesis unfolding e by blast
  next
    case False
    from frozen_up_to_group_skip [OF "10.prems" False]
    have p: "frozen_up_to st (set (concat (map refs_of vs)))" .
    have e: "Tuple_Freeze (VGroup a # vs) st = Tuple_Freeze vs st" using False by simp
    from "10.IH" p False
    have w: "well_frozen (Tuple_Freeze vs st)"
      and f: "\<forall>r\<in>set (concat (map refs_of vs)). allocated st r \<longrightarrow> is_frozen (Tuple_Freeze vs st) r"
      by simp_all
    have "is_frozen (Tuple_Freeze vs st) r"
      if "r \<in> set (concat (map refs_of (VGroup a # vs)))" "allocated st r" for r
      using that f False by auto
    with w show ?thesis unfolding e by blast
  qed
qed simp_all

lemma Tuple_Freeze_reached:
  assumes w: "well_frozen st" and r: "reaches st vs r" and a: "allocated st r"
  shows "is_frozen (Tuple_Freeze vs st) r"
proof -
  from w have "frozen_up_to st (set (concat (map refs_of vs)))"
    by (auto simp: frozen_up_to_empty [symmetric] intro: frozen_up_to_mono)
  from Tuple_Freeze_deep [OF this]
  have wf: "well_frozen (Tuple_Freeze vs st)"
    and roots: "\<forall>r\<in>set (concat (map refs_of vs)). allocated st r \<longrightarrow> is_frozen (Tuple_Freeze vs st) r"
    by blast+
  from r a show ?thesis
  proof (induction rule: reaches.induct)
    case (root r)
    with roots show ?case by blast
  next
    case (step r r')
    then have fr: "is_frozen (Tuple_Freeze vs st) r" by simp
    from step.hyps(2,3) obtain b where b: "r = RList b" "b < length (st_lists st)"
      by (cases r) auto
    from step.hyps(3) step.hyps(2) have "r' \<in> set (children (Tuple_Freeze vs st) r)" by simp
    with wf fr b step.prems show ?case
      unfolding well_frozen_def by (auto simp: Tuple_Freeze_elems)
  qed
qed

lemma reaches_transfer:
  assumes r: "reaches st' vs' r"
    and al: "\<And>x. allocated st' x = allocated st x"
    and ch: "\<And>x. allocated st x \<Longrightarrow> children st' x = children st x"
    and roots: "\<And>x. x \<in> set (concat (map refs_of vs')) \<Longrightarrow> reaches st vs x"
  shows "reaches st vs r"
  using r
proof (induction rule: reaches.induct)
  case (root r)
  then show ?case by (rule roots)
next
  case (step r r')
  from step.hyps(2) have a: "allocated st r" by (simp add: al)
  with step.hyps(3) have "r' \<in> set (children st r)" by (simp add: ch)
  with step.IH a show ?case by (rule reaches.step)
qed

lemma reaches_roots:
  assumes "reaches st vs' r" and "set (concat (map refs_of vs')) \<subseteq> set (concat (map refs_of vs))"
  shows "reaches st vs r"
  using assms(1)
proof (rule reaches_transfer)
  fix x
  assume "x \<in> set (concat (map refs_of vs'))"
  with assms(2) have "x \<in> set (concat (map refs_of vs))" by blast
  then show "reaches st vs x" by (rule reaches.root)
qed simp_all

lemma Tuple_Freeze_unreached:
  "\<not> reaches st vs r \<Longrightarrow> allocated st r \<Longrightarrow>
   is_frozen (Tuple_Freeze vs st) r = is_frozen st r"
proof (induction vs st rule: Tuple_Freeze.induct)
  case (1 st)
  then show ?case by simp
next
  case (2 vs st)
  from "2.prems"(1) have "\<not> reaches st vs r" by (auto dest: reaches_roots [where vs = "VNone # vs"])
  with 2 show ?case by simp
next
  case (3 k vs st)
  from "3.prems"(1) have "\<not> reaches st vs r" by (auto dest: reaches_roots [where vs = "VInt k # vs"])
  with 3 show ?case by simp
next
  case (4 s vs st)
  from "4.prems"(1) have "\<not> reaches st vs r" by (auto dest: reaches_roots [where vs = "VStr s # vs"])
  with 4 show ?case by simp
next
  case (5 f vs st)
  from "5.prems"(1) have "\<not> reaches st vs r" by (auto dest: reaches_roots [where vs = "VBuiltin f # vs"])
  with 5 show ?case by simp
next
  case (6 f x vs st)
  from "6.prems"(1) have "\<not> reaches st (x # vs) r"
    by (auto dest: reaches_roots [where vs = "VBound f x # vs"])
  with 6 show ?case by simp
next
  case (7 f cl vs st)
  from "7.prems"(1) have "\<not> reaches st (cl @ vs) r"
    by (auto dest: reaches_roots [where vs = "VFunction f cl # vs"])
  with 7 show ?case by simp
next
  case (8 ts vs st)
  from "8.prems"(1) have "\<not> reaches st (ts @ vs) r"
    by (auto dest: reaches_roots [where vs = "VTuple ts # vs"])
  with 8 show ?case by simp
next
  case (9 a vs st)
  show ?case
  proof (cases "a < length (st_lists st) \<and> \<not> l_frozen (st_lists st ! a)")
    case True
    let ?st1 = "st\<lparr>st_lists := (st_lists st)[a := (st_lists st ! a)\<lparr>l_frozen := True\<rparr>]\<rparr>"
    let ?vs1 = "l_elems (st_lists st ! a) @ vs"
    from True have a: "a < length (st_lists st)" by simp
    have ra: "reaches st (VList a # vs) (RList a)" by (rule reaches.root) simp
    with "9.prems"(1) have ne: "r \<noteq> RList a" by auto
    have "\<not> reaches ?st1 ?vs1 r"
    proof
      assume "reaches ?st1 ?vs1 r"
      then have "reaches st (VList a # vs) r"
      proof (rule reaches_transfer)
        fix x
        show "allocated ?st1 x = allocated st x" using a by (simp only: mark_list)
        show "children ?st1 x = children st x" using a by (simp only: mark_list)
        assume "x \<in> set (concat (map refs_of ?vs1))"
        then consider "x \<in> set (children st (RList a))" | "x \<in> set (concat (map refs_of vs))"
          by auto
        then show "reaches st (VList a # vs) x"
        proof cases
          case 1
          from ra _ 1 show ?thesis by (rule reaches.step) (simp add: a)
        next
          case 2
          then show ?thesis by (intro reaches.root) simp
        qed
      qed
      with "9.prems"(1) show False by simp
    qed
    moreover from "9.prems"(2) a have "allocated ?st1 r" by (simp only: mark_list)
    ultimately have "is_frozen (Tuple_Freeze ?vs1 ?st1) r = is_frozen ?st1 r"
      using "9.IH"(1) [OF True] by blast
    also have "\<dots> = is_frozen st r" using a ne by (simp only: mark_list) simp
    finally show ?thesis using True by simp
  next
    case False
    from "9.prems"(1) have "\<not> reaches st vs r"
      by (auto dest: reaches_roots [where vs = "VList a # vs"])
    from "9.IH"(2) [OF False this "9.prems"(2)] False show ?thesis by auto
  qed
next
  case (10 a vs st)
  show ?case
  proof (cases "a < length (st_groups st)")
    case True
    let ?st1 = "st\<lparr>st_groups := (st_groups st)[a := Group_Freeze (st_groups st ! a)]\<rparr>"
    have "reaches st (VGroup a # vs) (RGroup a)" by (rule reaches.root) simp
    with "10.prems"(1) have ne: "r \<noteq> RGroup a" by auto
    have "\<not> reaches ?st1 vs r"
    proof
      assume "reaches ?st1 vs r"
      then have "reaches st (VGroup a # vs) r"
      proof (rule reaches_transfer)
        fix x
        show "allocated ?st1 x = allocated st x" using True by (simp only: freeze_group)
        show "children ?st1 x = children st x" using True by (simp only: freeze_group)
        assume "x \<in> set (concat (map refs_of vs))"
        then show "reaches st (VGroup a # vs) x" by (intro reaches.root) simp
      qed
      with "10.prems"(1) show False by simp
    qed
    moreover from "10.prems"(2) True have "allocated ?st1 r" by (simp only: freeze_group)
    ultimately have "is_frozen (Tuple_Freeze vs ?st1) r = is_frozen ?st1 r"
      using "10.IH" True by simp
    also have "\<dots> = is_frozen st r" using True ne by (simp only: freeze_group) simp
    finally show ?thesis using True by simp
  next
    case False
    from "10.prems"(1) have "\<not> reaches st vs r"
      by (auto dest: reaches_roots [where vs = "VGroup a # vs"])
    with "10.IH" "10.prems"(2) False show ?thesis by simp
  qed
qed

lemma Tuple_Freeze_frozen_iff:
  assumes "well_frozen st" and "allocated st r"
  shows "is_frozen (Tuple_Freeze vs st) r \<longleftrightarrow> is_frozen st r \<or> reaches st vs r"
proof (cases "reaches st vs r")
  case True
  with Tuple_Freeze_reached [OF assms(1) True assms(2)] show ?thesis by simp
next
  case False
  with Tuple_Freeze_unreached [OF False assms(2)] show ?thesis by simp
qed


section \<open>Runs of \<^verbatim>\<open>group_wait\<close>\<close>





lemma winv_Refuse:
  assumes "winv cs g0 s" and "wait_step cs (Refuse e) s = Some s'"
  shows "winv cs g0 s'"
proof -
  from assms(2) have q: "w_pc s = PLoop" and s': "s' = s\<lparr>w_pc := PRet (Inl e)\<rparr>"
    by (auto split: if_splits)
  from assms(1) have st: "inv_static g0 s" and lp: "inv_loop g0 s" and pl: "inv_pool g0 s"
    and rs: "inv_results cs g0 s" and rt: "inv_ret s"
    by (simp_all add: winv_def)
  have "inv_static g0 s'" using st by (simp add: inv_static_def s')
  moreover have "inv_loop g0 s'" using lp q by (simp add: inv_loop_def s')
  moreover have "inv_pool g0 s'" using pl by (simp add: inv_pool_def s')
  moreover have "inv_results cs g0 s'" using rs by (simp add: inv_results_def s')
  moreover have "inv_ret s'" by (simp add: inv_ret_def s')
  ultimately show ?thesis by (simp add: winv_def)
qed

lemma winv_step:
  assumes "winv cs g0 s" and "wait_step cs a s = Some s'"
  shows "winv cs g0 s'"
proof (cases a)
  case Dispatch
  with assms show ?thesis by (simp only: winv_Dispatch)
next
  case (Refuse e)
  with assms show ?thesis by (simp only: winv_Refuse)
next
  case SendQueue
  with assms show ?thesis by (simp only: winv_SendQueue)
next
  case SendAbort
  with assms show ?thesis by (simp only: winv_SendAbort)
next
  case Join
  with assms show ?thesis by (simp only: winv_Join)
next
  case (RunTask k)
  with assms show ?thesis by (simp only: winv_RunTask)
next
  case WorkerPull
  with assms show ?thesis by (simp only: winv_WorkerPull)
next
  case WorkerExit
  with assms show ?thesis by (simp only: winv_WorkerExit)
next
  case (CancelCtx e)
  with assms show ?thesis by (simp only: winv_CancelCtx)
qed

lemma winv_run:
  "winv cs g0 s \<Longrightarrow> wait_run cs acts s = Some s' \<Longrightarrow> winv cs g0 s'"
proof (induction acts arbitrary: s)
  case Nil
  then show ?case by simp
next
  case (Cons a acts)
  then obtain s1 where 1: "wait_step cs a s = Some s1" and 2: "wait_run cs acts s1 = Some s'"
    by (auto split: option.splits)
  from winv_step [OF Cons.prems(1) 1] have "winv cs g0 s1" .
  from Cons.IH [OF this 2] show ?case .
qed

lemma group_wait_winv:
  assumes "group_wait cs acts g = Some (Inr s)" and "eg_err (g_group g) = None"
  shows "\<not> g_frozen g \<and> winv cs g s"
proof -
  from assms(1) obtain s0 where e: "group_wait_enter g = Inr s0" and r: "wait_run cs acts s0 = Some s"
    by (auto simp: group_wait_def split: sum.splits)
  from e have "\<not> g_frozen g" by (auto simp: group_wait_enter_def split: if_splits)
  moreover from winv_run [OF winv_enter [OF e assms(2)] r] have "winv cs g s" .
  ultimately show ?thesis by simp
qed










section \<open>The prompt schedules let \<^verbatim>\<open>wait\<close> return\<close>

lemma errgroup_return_None [simp]: "errgroup_return None g = g"
  by (simp add: errgroup_return_def)












section \<open>The claims about registration\<close>

text \<open>
  What \<^verbatim>\<open>go\<close> freezes when it gets as far as \<^verbatim>\<open>args.Freeze()\<close>, whether the context is live
  or done: in a store as the interpreter keeps it, every object that can be reached from
  the positional arguments, the function included, is frozen afterwards.
\<close>

lemma group_go_freezes_args:
  assumes "r < length (st_groups st)" and "\<not> g_frozen (st_groups st ! r)"
    and "args \<noteq> []" and "is_Callable (args ! 0)"
    and "well_frozen st" and "reaches st args x" and "allocated st x"
  shows "is_frozen (snd (group_go st r args kwargs)) x"
proof -
  from Tuple_Freeze_reached [OF assms(5,6,7)] have f: "is_frozen (Tuple_Freeze args st) x" .
  show ?thesis
  proof (cases "g_ctx (st_groups st ! r)")
    case None
    from group_go_live [OF assms(2,3,4) None assms(1)] f assms(1) show ?thesis
      by (cases x) (auto simp: nth_list_update)
  next
    case (Some e)
    then have "g_ctx (st_groups st ! r) \<noteq> None" by simp
    from group_go_cancelled [OF assms(2,3,4) this assms(1)] f show ?thesis by simp
  qed
qed

text \<open>
  C5.  The receiver \<open>r\<close> is not frozen, the first argument is callable, and the context
  the group is bound to is already done.  Then \<^verbatim>\<open>go\<close> returns \<^verbatim>\<open>None\<close> and no error; no
  group of the store has a call more or less than before, the receiver included, so the
  call is not registered.  The arguments are frozen before the context is looked at, and
  the receiver may be one of the objects that freeze reaches (\<^verbatim>\<open>g.go(f, g)\<close>, or the bound
  method \<^verbatim>\<open>g.wait\<close> as the function): the receiver is afterwards as it was, or as it was
  with the flag \<^verbatim>\<open>frozen\<close> set; it is as it was when it cannot be reached from the
  arguments, and in a store as the interpreter keeps it, it is frozen when it can.  A
  later \<^verbatim>\<open>wait\<close> on it runs exactly as on the group before the \<^verbatim>\<open>go\<close>, without the task,
  unless the \<^verbatim>\<open>go\<close> froze the receiver: then it fails with the error for a frozen group.
\<close>

theorem go_cancelled_noop:
  assumes "r < length (st_groups st)"
    and "\<not> g_frozen (st_groups st ! r)"
    and "args \<noteq> []" and "is_Callable (args ! 0)"
    and "g_ctx (st_groups st ! r) = Some e"
  shows "fst (group_go st r args kwargs) = Inr VNone \<and>
         map g_calls (st_groups (snd (group_go st r args kwargs))) = map g_calls (st_groups st) \<and>
         (st_groups (snd (group_go st r args kwargs)) ! r = st_groups st ! r \<or>
          st_groups (snd (group_go st r args kwargs)) ! r = Group_Freeze (st_groups st ! r)) \<and>
         (\<not> reaches st args (RGroup r) \<longrightarrow>
            st_groups (snd (group_go st r args kwargs)) ! r = st_groups st ! r) \<and>
         (well_frozen st \<and> reaches st args (RGroup r) \<longrightarrow>
            st_groups (snd (group_go st r args kwargs)) ! r = Group_Freeze (st_groups st ! r)) \<and>
         (\<forall>cs acts.
            group_wait cs acts (st_groups (snd (group_go st r args kwargs)) ! r) =
              (if g_frozen (st_groups (snd (group_go st r args kwargs)) ! r)
               then Some (Inl WaitFrozen)
               else group_wait cs acts (st_groups st ! r)))"
proof -
  have go: "group_go st r args kwargs = (Inr VNone, Tuple_Freeze args st)"
    using assms by (intro group_go_cancelled) simp_all
  have calls: "map g_calls (st_groups (Tuple_Freeze args st)) = map g_calls (st_groups st)"
  proof (rule nth_equalityI)
    show "length (map g_calls (st_groups (Tuple_Freeze args st))) = length (map g_calls (st_groups st))"
      by simp
  next
    fix a
    assume "a < length (map g_calls (st_groups (Tuple_Freeze args st)))"
    then have a: "a < length (st_groups st)" by simp
    from Tuple_Freeze_group [OF a, of args]
    have "g_calls (st_groups (Tuple_Freeze args st) ! a) = g_calls (st_groups st ! a)" by auto
    with a show "map g_calls (st_groups (Tuple_Freeze args st)) ! a = map g_calls (st_groups st) ! a"
      by simp
  qed
  note rcv = Tuple_Freeze_group [OF assms(1), of args]
  have al: "allocated st (RGroup r)" using assms(1) by simp
  have away: "st_groups (Tuple_Freeze args st) ! r = st_groups st ! r"
    if "\<not> reaches st args (RGroup r)"
  proof -
    from Tuple_Freeze_unreached [OF that al] assms(2)
    have "\<not> g_frozen (st_groups (Tuple_Freeze args st) ! r)" by simp
    with rcv show ?thesis by auto
  qed
  have among: "st_groups (Tuple_Freeze args st) ! r = Group_Freeze (st_groups st ! r)"
    if "well_frozen st" "reaches st args (RGroup r)"
  proof -
    from Tuple_Freeze_reached [OF that al]
    have "g_frozen (st_groups (Tuple_Freeze args st) ! r)" by simp
    with rcv assms(2) show ?thesis by auto
  qed
  have later: "group_wait cs acts (st_groups (Tuple_Freeze args st) ! r) =
      (if g_frozen (st_groups (Tuple_Freeze args st) ! r) then Some (Inl WaitFrozen)
       else group_wait cs acts (st_groups st ! r))" for cs acts
    using rcv by (auto simp: group_wait_frozen)
  from go calls rcv away among later show ?thesis by simp
qed


theorem go_cancelled_noop_witness:
  "group_go \<lparr>st_lists = [], st_groups = [NewGroup (Some ContextCanceled) 0 Inf 0]\<rparr> 0
          [VBuiltin ''f'', VInt 1] [] =
     (Inr VNone, \<lparr>st_lists = [], st_groups = [NewGroup (Some ContextCanceled) 0 Inf 0]\<rparr>) \<and>
   (\<forall>cs acts.
      group_wait cs acts (st_groups (snd (group_go
          \<lparr>st_lists = [], st_groups = [NewGroup (Some ContextCanceled) 0 Inf 0]\<rparr> 0
          [VBuiltin ''f'', VInt 1] [])) ! 0) =
      group_wait cs acts (NewGroup (Some ContextCanceled) 0 Inf 0)) \<and>
   group_go \<lparr>st_lists = [], st_groups = [NewGroup (Some ContextCanceled) 0 Inf 0]\<rparr> 0
          [VBuiltin ''f'', VGroup 0] [] =
     (Inr VNone,
      \<lparr>st_lists = [], st_groups = [Group_Freeze (NewGroup (Some ContextCanceled) 0 Inf 0)]\<rparr>) \<and>
   (\<forall>cs acts.
      group_wait cs acts (st_groups (snd (group_go
          \<lparr>st_lists = [], st_groups = [NewGroup (Some ContextCanceled) 0 Inf 0]\<rparr> 0
          [VBuiltin ''f'', VGroup 0] [])) ! 0) = Some (Inl WaitFrozen))"
proof -
  let ?st = "\<lparr>st_lists = [], st_groups = [NewGroup (Some ContextCanceled) 0 Inf 0]\<rparr>"
  have w: "well_frozen ?st" by (simp add: well_frozen_def)
  have r: "reaches ?st [VBuiltin ''f'', VGroup 0] (RGroup 0)" by (rule reaches.root) simp
  have h: "0 < length (st_groups ?st)" "\<not> g_frozen (st_groups ?st ! 0)"
    "g_ctx (st_groups ?st ! 0) = Some ContextCanceled"
    by (simp_all add: NewGroup_def)
  have 1: "group_go ?st 0 [VBuiltin ''f'', VInt 1] [] = (Inr VNone, ?st)"
    by (simp add: group_go_def NewGroup_def)
  have 2: "group_go ?st 0 [VBuiltin ''f'', VGroup 0] [] =
     (Inr VNone, \<lparr>st_lists = [], st_groups = [Group_Freeze (NewGroup (Some ContextCanceled) 0 Inf 0)]\<rparr>)"
    by (simp add: group_go_def NewGroup_def Group_Freeze_def)
  have a1: "[VBuiltin ''f'', VInt 1] \<noteq> []" "is_Callable ([VBuiltin ''f'', VInt 1] ! 0)"
    and a2: "[VBuiltin ''f'', VGroup 0] \<noteq> []" "is_Callable ([VBuiltin ''f'', VGroup 0] ! 0)"
    by simp_all
  from go_cancelled_noop [OF h(1,2) a1 h(3), of "[]"]
  have "\<forall>cs acts.
      group_wait cs acts (st_groups (snd (group_go ?st 0 [VBuiltin ''f'', VInt 1] [])) ! 0) =
              (if g_frozen (st_groups (snd (group_go ?st 0 [VBuiltin ''f'', VInt 1] [])) ! 0)
               then Some (Inl WaitFrozen)
               else group_wait cs acts (st_groups ?st ! 0))"
    by blast
  then have 3: "\<forall>cs acts.
      group_wait cs acts (st_groups (snd (group_go ?st 0 [VBuiltin ''f'', VInt 1] [])) ! 0) =
      group_wait cs acts (NewGroup (Some ContextCanceled) 0 Inf 0)"
    unfolding 1 using h(2) by simp
  from go_cancelled_noop [OF h(1,2) a2 h(3), of "[]"] w r
  have "st_groups (snd (group_go ?st 0 [VBuiltin ''f'', VGroup 0] [])) ! 0 =
          Group_Freeze (st_groups ?st ! 0)"
    and "\<forall>cs acts.
      group_wait cs acts (st_groups (snd (group_go ?st 0 [VBuiltin ''f'', VGroup 0] [])) ! 0) =
              (if g_frozen (st_groups (snd (group_go ?st 0 [VBuiltin ''f'', VGroup 0] [])) ! 0)
               then Some (Inl WaitFrozen)
               else group_wait cs acts (st_groups ?st ! 0))"
    by blast+
  then have 4: "\<forall>cs acts.
      group_wait cs acts (st_groups (snd (group_go ?st 0 [VBuiltin ''f'', VGroup 0] [])) ! 0) =
        Some (Inl WaitFrozen)"
    by simp
  from 1 2 3 4 show ?thesis by blast
qed








text \<open>
  C4.  The list \<^verbatim>\<open>l = [1]\<close> is passed by name, \<^verbatim>\<open>g.go(f, k=l)\<close>, to a group that is not
  frozen and whose context is live.  The call is registered, but the list is not frozen:
  \<^verbatim>\<open>l.append(2)\<close> after the \<^verbatim>\<open>go\<close> succeeds; and what is stored for the named arguments is
  one empty tuple, not the pair of \<^verbatim>\<open>k\<close> and the list.  Passed by position,
  \<^verbatim>\<open>g.go(f, l)\<close>, the same list is frozen and the \<^verbatim>\<open>append\<close> fails.
\<close>

theorem go_named_args_not_frozen:
  "fst (group_go \<lparr>st_lists = [\<lparr>l_elems = [VInt 1], l_frozen = False\<rparr>],
                  st_groups = [NewGroup None 0 Inf 0]\<rparr> 0
         [VBuiltin ''f''] [[VStr ''k'', VList 0]]) = Inr VNone \<and>
   st_lists (snd (group_go \<lparr>st_lists = [\<lparr>l_elems = [VInt 1], l_frozen = False\<rparr>],
                  st_groups = [NewGroup None 0 Inf 0]\<rparr> 0
         [VBuiltin ''f''] [[VStr ''k'', VList 0]])) = [\<lparr>l_elems = [VInt 1], l_frozen = False\<rparr>] \<and>
   g_calls (st_groups (snd (group_go \<lparr>st_lists = [\<lparr>l_elems = [VInt 1], l_frozen = False\<rparr>],
                  st_groups = [NewGroup None 0 Inf 0]\<rparr> 0
         [VBuiltin ''f''] [[VStr ''k'', VList 0]])) ! 0) =
     [\<lparr>c_fn = VBuiltin ''f'', c_args = [], c_kwargs = [[]]\<rparr>] \<and>
   map_sum id st_lists (list_append 0 (VInt 2)
      (snd (group_go \<lparr>st_lists = [\<lparr>l_elems = [VInt 1], l_frozen = False\<rparr>],
                  st_groups = [NewGroup None 0 Inf 0]\<rparr> 0
         [VBuiltin ''f''] [[VStr ''k'', VList 0]]))) =
     Inr [\<lparr>l_elems = [VInt 1, VInt 2], l_frozen = False\<rparr>] \<and>
   list_append 0 (VInt 2)
      (snd (group_go \<lparr>st_lists = [\<lparr>l_elems = [VInt 1], l_frozen = False\<rparr>],
                  st_groups = [NewGroup None 0 Inf 0]\<rparr> 0
         [VBuiltin ''f'', VList 0] [])) = Inl AppendFrozenList"
  by (simp add: group_go_def NewGroup_def list_append_def)

text \<open>
  C10.  The same call on a group whose context is already done, \<^verbatim>\<open>g.go(f, k=l)\<close>: nothing
  is registered and the list passed by name is not frozen, \<^verbatim>\<open>l.append(2)\<close> succeeds
  afterwards.  Passed by position the list is frozen although nothing is registered.
\<close>

theorem go_noop_named_args_not_frozen:
  "group_go \<lparr>st_lists = [\<lparr>l_elems = [VInt 1], l_frozen = False\<rparr>],
              st_groups = [NewGroup (Some ContextCanceled) 0 Inf 0]\<rparr> 0
         [VBuiltin ''f''] [[VStr ''k'', VList 0]] =
     (Inr VNone, \<lparr>st_lists = [\<lparr>l_elems = [VInt 1], l_frozen = False\<rparr>],
                  st_groups = [NewGroup (Some ContextCanceled) 0 Inf 0]\<rparr>) \<and>
   map_sum id st_lists (list_append 0 (VInt 2)
      (snd (group_go \<lparr>st_lists = [\<lparr>l_elems = [VInt 1], l_frozen = False\<rparr>],
                  st_groups = [NewGroup (Some ContextCanceled) 0 Inf 0]\<rparr> 0
         [VBuiltin ''f''] [[VStr ''k'', VList 0]]))) =
     Inr [\<lparr>l_elems = [VInt 1, VInt 2], l_frozen = False\<rparr>] \<and>
   group_go \<lparr>st_lists = [\<lparr>l_elems = [VInt 1], l_frozen = False\<rparr>],
              st_groups = [NewGroup (Some ContextCanceled) 0 Inf 0]\<rparr> 0
         [VBuiltin ''f'', VList 0] [] =
     (Inr VNone, \<lparr>st_lists = [\<lparr>l_elems = [VInt 1], l_frozen = True\<rparr>],
                  st_groups = [NewGroup (Some ContextCanceled) 0 Inf 0]\<rparr>)"
  by (simp add: group_go_def NewGroup_def list_append_def)


section \<open>The claim about construction\<close>

text \<open>
  C9, as stated, fails: \<^verbatim>\<open>group(every="-5ms")\<close> and \<^verbatim>\<open>group(every="0s")\<close> are accepted.  The
  strings parse, to a negative and to a zero interval, \<^verbatim>\<open>Make\<close> has no test of the sign,
  and the group it returns has the rate \<^verbatim>\<open>rate.Inf\<close>.
\<close>

theorem make_accepts_nonpositive_interval:
  "ParseDuration ''-5ms'' = Inr (- 5000000) \<and>
   Make ParseDuration None 0 ''-5ms'' 0 \<lparr>st_lists = [], st_groups = []\<rparr> =
     (Inr (VGroup 0), \<lparr>st_lists = [], st_groups = [NewGroup None 0 Inf 0]\<rparr>) \<and>
   ParseDuration ''0s'' = Inr 0 \<and>
   Make ParseDuration None 0 ''0s'' 0 \<lparr>st_lists = [], st_groups = []\<rparr> =
     (Inr (VGroup 0), \<lparr>st_lists = [], st_groups = [NewGroup None 0 Inf 0]\<rparr>)"
  by (simp add: Make_def ParseDuration_def unit_ns_def is_digit_def digits_val_def rate_Every_def)

text \<open>
  C9, amended.  With a non-empty \<^verbatim>\<open>every\<close>, whatever the parser: when the string does not
  parse, \<^verbatim>\<open>Make\<close> returns the parser's error and makes no group; when it parses, to an
  interval \<open>d\<close> of any sign, \<^verbatim>\<open>Make\<close> returns a new group, whose rate is one event every
  \<open>d\<close> when \<open>d\<close> is positive and \<^verbatim>\<open>rate.Inf\<close> when it is not.
\<close>

theorem make_every:
  assumes "every \<noteq> ''''"
  shows "(\<forall>e. parse every = Inl e \<longrightarrow> Make parse local n every burst st = (Inl e, st)) \<and>
         (\<forall>d. parse every = Inr d \<longrightarrow>
            Make parse local n every burst st =
              (Inr (VGroup (length (st_groups st))),
               st\<lparr>st_groups := st_groups st @
                 [NewGroup (case local of None \<Rightarrow> None | Some c \<Rightarrow> c) n
                    (if d \<le> 0 then Inf else Every d) burst]\<rparr>))"
  using assms by (simp add: Make_def rate_Every_def)

theorem make_every_witness:
  "Make ParseDuration None 0 ''5x'' 0 \<lparr>st_lists = [], st_groups = []\<rparr> =
     (Inl ParseDurationError, \<lparr>st_lists = [], st_groups = []\<rparr>) \<and>
   Make ParseDuration None 0 ''5ms'' 1 \<lparr>st_lists = [], st_groups = []\<rparr> =
     (Inr (VGroup 0), \<lparr>st_lists = [], st_groups = [NewGroup None 0 (Every 5000000) 1]\<rparr>) \<and>
   Make ParseDuration None 0 ''-5ms'' 1 \<lparr>st_lists = [], st_groups = []\<rparr> =
     (Inr (VGroup 0), \<lparr>st_lists = [], st_groups = [NewGroup None 0 Inf 1]\<rparr>)"
  using make_every [of "''5x''" ParseDuration None 0 0 "\<lparr>st_lists = [], st_groups = []\<rparr>"]
    make_every [of "''5ms''" ParseDuration None 0 1 "\<lparr>st_lists = [], st_groups = []\<rparr>"]
    make_every [of "''-5ms''" ParseDuration None 0 1 "\<lparr>st_lists = [], st_groups = []\<rparr>"]
  by (simp add: ParseDuration_def unit_ns_def is_digit_def digits_val_def)


section \<open>The claims about \<^verbatim>\<open>wait\<close>\<close>

text \<open>
  In every state of a \<^verbatim>\<open>wait\<close>, the number of functions the loop has passed to
  \<^verbatim>\<open>errgroup.Go\<close> follows the field \<^verbatim>\<open>n\<close> of the group: with \<^verbatim>\<open>n\<close> positive it is the smaller
  of \<^verbatim>\<open>n\<close> and the number of calls admitted, all of them workers; otherwise it is the
  number of calls admitted, and there is no queue and no worker.
\<close>

lemma wait_spawned:
  assumes "group_wait cs acts g = Some (Inr s)" and "eg_err (g_group g) = None"
  shows "eg_spawned (g_group (w_g s)) = eg_spawned (g_group g) +
           (if g_n g \<le> 0 then length (w_admitted s) else min (nat (g_n g)) (length (w_admitted s))) \<and>
         (g_n g \<le> 0 \<longrightarrow> w_queue s = None \<and> w_workers s = 0) \<and>
         (0 < g_n g \<longrightarrow> w_tasks s = [])"
proof -
  from group_wait_winv [OF assms] have "inv_loop g s" "inv_pool g s"
    by (simp_all add: winv_def)
  then show ?thesis by (simp add: inv_loop_def inv_pool_def)
qed

text \<open>
  C7.  \<^verbatim>\<open>g = group(n=2)\<close>, three times \<^verbatim>\<open>g.go(f)\<close>, then \<^verbatim>\<open>g.wait()\<close>.  The group that \<^verbatim>\<open>Make\<close>
  returns has the field \<^verbatim>\<open>n\<close> at zero, since \<^verbatim>\<open>NewGroup\<close> does not store its parameter.  So
  after the loop of \<^verbatim>\<open>wait\<close> has admitted the three calls, three functions have been
  passed to \<^verbatim>\<open>errgroup.Go\<close>, one for each call, there is no queue and no worker, where a
  cap of two asks for two workers.
\<close>

theorem cap_is_not_stored:
  "g_n (st_groups (snd (Make ParseDuration None 2 '''' 0 \<lparr>st_lists = [], st_groups = []\<rparr>)) ! 0) = 0 \<and>
   map_option (map_sum id (\<lambda>s. (w_pc s, w_i s, eg_spawned (g_group (w_g s)), w_tasks s, w_queue s, w_workers s)))
     (group_wait cs [Dispatch, Dispatch, Dispatch]
        (st_groups
          (snd (group_go
            (snd (group_go
              (snd (group_go
                (snd (Make ParseDuration None 2 '''' 0 \<lparr>st_lists = [], st_groups = []\<rparr>))
                0 [VBuiltin ''f''] []))
              0 [VBuiltin ''f''] []))
            0 [VBuiltin ''f''] [])) ! 0)) =
     Some (Inr (PLoop, 3, 3, [0, 1, 2], None, 0))"
  by (simp add: Make_def NewGroup_def group_go_def group_wait_def group_wait_enter_def
      Group_Freeze_def loop_head_def Limiter_Wait_def errgroup_Go_def)













end
